theory Spec2Isabelle
  imports Complex_Main "HOL-Library.AList" "HOL-Library.Product_Lexorder"
begin

section \<open>Text primitives\<close>

text \<open>
  A Python \<^verbatim>\<open>str\<close> is modelled as a HOL \<^typ>\<open>string\<close>; a \<^typ>\<open>char\<close> stands for
  the code point of the same number, so the model covers documents whose code points are
  below 256. The character classes below are those of CPython for that range.
\<close>

definition LF :: char where
  "LF = CHR 0x0A"

definition CR :: char where
  "CR = CHR 0x0D"

text \<open>\<^verbatim>\<open>str.isspace\<close> (used by \<^verbatim>\<open>str.strip()\<close> and by the pattern \<^verbatim>\<open>\s\<close>).\<close>

definition whitespace :: string where
  "whitespace = [CHR 0x09, CHR 0x0A, CHR 0x0B, CHR 0x0C, CHR 0x0D, CHR 0x1C, CHR 0x1D,
                 CHR 0x1E, CHR 0x1F, CHR 0x20, CHR 0x85, CHR 0xA0]"

definition is_space :: "char \<Rightarrow> bool" where
  "is_space c = (c \<in> set whitespace)"

text \<open>The line boundaries of \<^verbatim>\<open>str.splitlines()\<close>.\<close>

definition linebreaks :: string where
  "linebreaks = [CHR 0x0A, CHR 0x0D, CHR 0x0B, CHR 0x0C, CHR 0x1C, CHR 0x1D, CHR 0x1E, CHR 0x85]"

definition is_linebreak :: "char \<Rightarrow> bool" where
  "is_linebreak c = (c \<in> set linebreaks)"

definition strip :: "string \<Rightarrow> string" where
  "strip s = rev (dropWhile is_space (rev (dropWhile is_space s)))"

definition startswith :: "string \<Rightarrow> string \<Rightarrow> bool" where
  "startswith s p = (take (length p) s = p)"

text \<open>
  \<^verbatim>\<open>str.splitlines()\<close>: the lines without their terminators, \<^verbatim>\<open>\r\n\<close> counting as
  one terminator, and no empty last line after a final terminator.
\<close>

fun split_acc :: "string \<Rightarrow> string \<Rightarrow> string list" where
  "split_acc cur [] = (if cur = [] then [] else [cur])"
| "split_acc cur (c # cs) =
     (if is_linebreak c then
        (case cs of
           [] \<Rightarrow> [cur]
         | d # ds \<Rightarrow> if c = CR \<and> d = LF then cur # split_acc [] ds else cur # split_acc [] cs)
      else split_acc (cur @ [c]) cs)"

definition splitlines :: "string \<Rightarrow> string list" where
  "splitlines s = split_acc [] s"

text \<open>\<^verbatim>\<open>sep.join(xs)\<close>.\<close>

fun join :: "string \<Rightarrow> string list \<Rightarrow> string" where
  "join sep [] = []"
| "join sep [x] = x"
| "join sep (x # y # ys) = x @ sep @ join sep (y # ys)"

text \<open>\<^verbatim>\<open>line.split(",", 1)[1]\<close> on a line that holds a comma: the text after the first one.\<close>

definition after_first_comma :: "string \<Rightarrow> string" where
  "after_first_comma line = tl (dropWhile (\<lambda>c. c \<noteq> CHR '','') line)"

section \<open>Playlist parser: \<^verbatim>\<open>parse_m3u_channels\<close>\<close>

text \<open>
  The loop body of \<^verbatim>\<open>parse_m3u_channels\<close>. The state is the list \<^verbatim>\<open>channels\<close> and the
  register \<^verbatim>\<open>current_name\<close> (\<open>None\<close> for Python's \<^verbatim>\<open>None\<close>). The test
  \<^verbatim>\<open>... and current_name\<close> is a truth test: it fails on \<^verbatim>\<open>None\<close> and on the empty string.
\<close>

definition m3u_step ::
  "string \<Rightarrow> (string \<times> string) list \<times> string option \<Rightarrow> (string \<times> string) list \<times> string option"
where
  "m3u_step raw st =
     (let line = strip raw; channels = fst st; current_name = snd st in
      if startswith line ''#EXTINF'' then
        (if CHR '','' \<in> set line then (channels, Some (strip (after_first_comma line)))
         else (channels, None))
      else
        (case current_name of
           None \<Rightarrow> (channels, current_name)
         | Some n \<Rightarrow>
             if line \<noteq> [] \<and> \<not> startswith line ''#'' \<and> n \<noteq> []
             then (channels @ [(n, line)], None)
             else (channels, current_name)))"

text \<open>The loop over the lines, from the empty list and an absent pending name.\<close>

definition m3u_scan :: "string list \<Rightarrow> (string \<times> string) list \<times> string option" where
  "m3u_scan lines = fold m3u_step lines ([], None)"

definition parse_m3u_channels :: "string \<Rightarrow> (string \<times> string) list" where
  "parse_m3u_channels m3u_text = fst (m3u_scan (splitlines m3u_text))"

section \<open>Playlist projector: \<^verbatim>\<open>build_new_m3u\<close>\<close>

definition m3u_header :: string where
  "m3u_header = ''#EXTM3U url-tvg=\"epg_su_filtru.xml.gz\"''"

text \<open>
  The metadata line of one entry. \<^verbatim>\<open>mapping.get(name)\<close> is \<open>None\<close> for a missing key, and
  \<^verbatim>\<open>if cid:\<close> is false for \<open>None\<close> and for the empty identifier.
\<close>

definition extinf_line :: "(string \<rightharpoonup> string) \<Rightarrow> string \<Rightarrow> string" where
  "extinf_line mapping name =
     (case mapping name of
        None \<Rightarrow> ''#EXTINF:-1,'' @ name
      | Some cid \<Rightarrow>
          if cid \<noteq> [] then ''#EXTINF:-1 tvg-id=\"'' @ cid @ ''\",'' @ name
          else ''#EXTINF:-1,'' @ name)"

definition m3u_entry_step :: "(string \<rightharpoonup> string) \<Rightarrow> string \<times> string \<Rightarrow> string list \<Rightarrow> string list" where
  "m3u_entry_step mapping entry out_lines =
     (out_lines @ [extinf_line mapping (fst entry)]) @ [snd entry]"

definition build_out_lines :: "(string \<times> string) list \<Rightarrow> (string \<rightharpoonup> string) \<Rightarrow> string list" where
  "build_out_lines channels mapping = fold (m3u_entry_step mapping) channels [m3u_header]"

definition build_new_m3u :: "(string \<times> string) list \<Rightarrow> (string \<rightharpoonup> string) \<Rightarrow> string" where
  "build_new_m3u channels mapping = join [LF] (build_out_lines channels mapping) @ [LF]"

section \<open>Pattern extraction over the guide text\<close>

text \<open>
  The source reads the guide with regular expressions. Each pattern used is a chain of
  literal texts separated by lazy groups \<^verbatim>\<open>(.*?)\<close> or by \<^verbatim>\<open>[^>]*\<close>, so a match at a
  position is found by looking for the first occurrence of each literal in turn, and
  backtracking can never find a match that this search misses: a later occurrence of a
  literal has less text after it, not more.
\<close>

text \<open>
  \<open>split_at_first pat s\<close>: the text before and the text after the first occurrence of
  \<open>pat\<close> in \<open>s\<close> (\<^verbatim>\<open>str.partition\<close>), or \<open>None\<close> when there is none.
\<close>

fun split_at_first :: "string \<Rightarrow> string \<Rightarrow> (string \<times> string) option" where
  "split_at_first pat [] = (if pat = [] then Some ([], []) else None)"
| "split_at_first pat (c # cs) =
     (if startswith (c # cs) pat then Some ([], drop (length pat) (c # cs))
      else (case split_at_first pat cs of
              None \<Rightarrow> None
            | Some (before, rest) \<Rightarrow> Some (c # before, rest)))"

lemma split_at_first_shorter:
  "split_at_first pat s = Some (before, rest) \<Longrightarrow> pat \<noteq> [] \<Longrightarrow> length rest < length s"
proof (induction s arbitrary: before)
  case Nil
  then show ?case by simp
next
  case (Cons c cs)
  show ?case
  proof (cases "startswith (c # cs) pat")
    case True
    with Cons.prems show ?thesis by auto
  next
    case False
    with Cons.prems obtain b where "split_at_first pat cs = Some (b, rest)"
      by (auto split: option.splits)
    from Cons.IH [OF this Cons.prems(2)] show ?thesis by simp
  qed
qed

text \<open>
  \<^verbatim>\<open>re.findall(r"<channel id=\"(.*?)\">(.*?)</channel>", epg_xml, re.DOTALL)\<close>: the pairs
  (identifier, inner text) of the successive matches, each search starting where the
  match before it ended.
\<close>

function findall_channel :: "string \<Rightarrow> (string \<times> string) list" where
  "findall_channel s =
     (case split_at_first ''<channel id=\"'' s of
        None \<Rightarrow> []
      | Some (skipped, r1) \<Rightarrow>
          (case split_at_first ''\">'' r1 of
             None \<Rightarrow> []
           | Some (cid, r2) \<Rightarrow>
               (case split_at_first ''</channel>'' r2 of
                  None \<Rightarrow> []
                | Some (inner, r3) \<Rightarrow> (cid, inner) # findall_channel r3)))"
  by pat_completeness auto
termination
proof (relation "measure length", goal_cases)
  case 1
  show ?case by simp
next
  case (2 s x2 skipped r1 x2a cid r2 x2b inner r3)
  have "length r1 < length s" using 2(1,2) split_at_first_shorter by force
  moreover have "length r2 < length r1" using 2(3,4) split_at_first_shorter by force
  moreover have "length r3 < length r2" using 2(5,6) split_at_first_shorter by force
  ultimately show ?case by simp
qed

text \<open>\<^verbatim>\<open>re.findall(r"<programme(.*?)</programme>", epg_xml, re.DOTALL)\<close>.\<close>

function findall_programme :: "string \<Rightarrow> string list" where
  "findall_programme s =
     (case split_at_first ''<programme'' s of
        None \<Rightarrow> []
      | Some (skipped, r1) \<Rightarrow>
          (case split_at_first ''</programme>'' r1 of
             None \<Rightarrow> []
           | Some (block, r2) \<Rightarrow> block # findall_programme r2))"
  by pat_completeness auto
termination
proof (relation "measure length", goal_cases)
  case 1
  show ?case by simp
next
  case (2 s x2 skipped r1 x2a block r2)
  have "length r1 < length s" using 2(1,2) split_at_first_shorter by force
  moreover have "length r2 < length r1" using 2(3,4) split_at_first_shorter by force
  ultimately show ?case by simp
qed

text \<open>
  \<^verbatim>\<open>re.search(r'channel="(.*?)"', block)\<close>, group 1. Without \<^verbatim>\<open>re.DOTALL\<close> the dot does not
  match a line feed: an occurrence of \<^verbatim>\<open>channel="\<close> whose value would run over a line feed
  (or has no closing quote) is no match, and the search goes on behind it.
\<close>

function search_channel_attr :: "string \<Rightarrow> string option" where
  "search_channel_attr s =
     (case split_at_first ''channel=\"'' s of
        None \<Rightarrow> None
      | Some (skipped, r) \<Rightarrow>
          (case dropWhile (\<lambda>c. c \<noteq> CHR 0x22 \<and> c \<noteq> LF) r of
             [] \<Rightarrow> search_channel_attr r
           | c # rest \<Rightarrow>
               if c = CHR 0x22 then Some (takeWhile (\<lambda>c. c \<noteq> CHR 0x22 \<and> c \<noteq> LF) r)
               else search_channel_attr r))"
  by pat_completeness auto
termination
proof (relation "measure length", goal_cases)
  case 1
  show ?case by simp
next
  case (2 s x2 skipped r)
  then show ?case using split_at_first_shorter by force
next
  case (3 s x2 skipped r c rest)
  then show ?case using split_at_first_shorter by force
qed

text \<open>
  \<^verbatim>\<open>re.findall(r"<display-name[^>]*>(.*?)</display-name>", inner)\<close>, without
  \<^verbatim>\<open>re.DOTALL\<close>: a name that would run over a line feed is no match, and the search goes on
  behind that opening tag.
\<close>

function findall_display_name :: "string \<Rightarrow> string list" where
  "findall_display_name s =
     (case split_at_first ''<display-name'' s of
        None \<Rightarrow> []
      | Some (skipped, r1) \<Rightarrow>
          (case split_at_first ''>'' r1 of
             None \<Rightarrow> []
           | Some (attrs, r2) \<Rightarrow>
               (case split_at_first ''</display-name>'' r2 of
                  None \<Rightarrow> []
                | Some (n, r3) \<Rightarrow>
                    if LF \<in> set n then findall_display_name r1
                    else n # findall_display_name r3)))"
  by pat_completeness auto
termination
proof (relation "measure length", goal_cases)
  case 1
  show ?case by simp
next
  case (2 s x2 skipped r1 x2a attrs r2 x2b n r3)
  then show ?case using split_at_first_shorter by force
next
  case (3 s x2 skipped r1 x2a attrs r2 x2b n r3)
  have "length r1 < length s" using 3(1,2) split_at_first_shorter by force
  moreover have "length r2 < length r1" using 3(3,4) split_at_first_shorter by force
  moreover have "length r3 < length r2" using 3(5,6) split_at_first_shorter by force
  ultimately show ?case by simp
qed

text \<open>
  \<^verbatim>\<open>re.sub(r"\s+", " ", n)\<close>: every maximal run of whitespace becomes one space. The
  flag says whether the character before was whitespace.
\<close>

fun sub_ws :: "bool \<Rightarrow> string \<Rightarrow> string" where
  "sub_ws in_run [] = []"
| "sub_ws in_run (c # cs) =
     (if is_space c then (if in_run then sub_ws True cs else CHR '' '' # sub_ws True cs)
      else c # sub_ws False cs)"

definition clean_name :: "string \<Rightarrow> string" where
  "clean_name n = strip (sub_ws False n)"

text \<open>
  \<^verbatim>\<open>re.search(r"^(.*?<tv[^>]*>)", epg_xml, re.DOTALL)\<close>, group 1: the text up to the first
  \<^verbatim>\<open>>\<close> behind the first \<^verbatim>\<open><tv\<close>.
\<close>

definition search_header :: "string \<Rightarrow> string option" where
  "search_header s =
     (case split_at_first ''<tv'' s of
        None \<Rightarrow> None
      | Some (before, r1) \<Rightarrow>
          (case split_at_first ''>'' r1 of
             None \<Rightarrow> None
           | Some (attrs, r2) \<Rightarrow> Some (before @ ''<tv'' @ attrs @ ''>'')))"

section \<open>Guide parser: \<^verbatim>\<open>parse_epg_channels\<close>\<close>

text \<open>
  The dictionary \<^verbatim>\<open>epg_channels\<close> is an association list in insertion order, which is
  the order Python iterates a \<^verbatim>\<open>dict\<close> in; assigning to a key that is present keeps its
  place and replaces its value (\<^const>\<open>AList.update\<close>).
\<close>

definition epg_step :: "string \<times> string \<Rightarrow> (string \<times> string list) list \<Rightarrow> (string \<times> string list) list" where
  "epg_step block epg_channels =
     (let names = findall_display_name (snd block);
          clean_names = map clean_name names
      in if clean_names \<noteq> [] then AList.update (fst block) clean_names epg_channels
         else epg_channels)"

definition parse_epg_channels :: "string \<Rightarrow> (string \<times> string list) list" where
  "parse_epg_channels epg_xml = fold epg_step (findall_channel epg_xml) []"

section \<open>The similarity score: \<^verbatim>\<open>difflib.SequenceMatcher(None, a, b).ratio()\<close>\<close>

text \<open>
  The standard library's matcher, as the source calls it: no junk predicate, and the
  automatic junk heuristic on. \<open>b2j b elt\<close> is the list of the indices of \<open>elt\<close> in
  \<open>b\<close>, emptied for an element that is popular: one that occurs more than
  \<open>n div 100 + 1\<close> times in a \<open>b\<close> of length \<open>n \<ge> 200\<close>.
\<close>

definition b2j_all :: "'a list \<Rightarrow> 'a \<Rightarrow> nat list" where
  "b2j_all b elt = map fst (filter (\<lambda>p. snd p = elt) (enumerate 0 b))"

definition is_popular :: "'a list \<Rightarrow> 'a \<Rightarrow> bool" where
  "is_popular b elt = (200 \<le> length b \<and> length b div 100 + 1 < length (b2j_all b elt))"

definition b2j :: "'a list \<Rightarrow> 'a \<Rightarrow> nat list" where
  "b2j b elt = (if is_popular b elt then [] else b2j_all b elt)"

text \<open>
  The inner loop of \<^verbatim>\<open>find_longest_match\<close> over the indices \<open>j\<close> of \<open>a[i]\<close> in \<open>b\<close>. The
  state is \<^verbatim>\<open>newj2len\<close> and \<^verbatim>\<open>(besti, bestj, bestsize)\<close>. \<^verbatim>\<open>j2len.get(j-1, 0)\<close> at \<open>j = 0\<close>
  asks for the key \<open>-1\<close>, which is never present.
\<close>

fun flm_inner ::
  "nat \<Rightarrow> nat \<Rightarrow> nat \<Rightarrow> (nat \<rightharpoonup> nat) \<Rightarrow> nat list \<Rightarrow>
   (nat \<rightharpoonup> nat) \<times> nat \<times> nat \<times> nat \<Rightarrow> (nat \<rightharpoonup> nat) \<times> nat \<times> nat \<times> nat"
where
  "flm_inner i blo bhi j2len [] st = st"
| "flm_inner i blo bhi j2len (j # js) (newj2len, besti, bestj, bestsize) =
     (if j < blo then flm_inner i blo bhi j2len js (newj2len, besti, bestj, bestsize)
      else if bhi \<le> j then (newj2len, besti, bestj, bestsize)
      else
        (let k = (if j = 0 then 0 else (case j2len (j - 1) of None \<Rightarrow> 0 | Some v \<Rightarrow> v)) + 1
         in if bestsize < k
            then flm_inner i blo bhi j2len js (newj2len(j \<mapsto> k), i + 1 - k, j + 1 - k, k)
            else flm_inner i blo bhi j2len js (newj2len(j \<mapsto> k), besti, bestj, bestsize)))"

text \<open>One round of the outer loop \<^verbatim>\<open>for i in range(alo, ahi)\<close>.\<close>

definition flm_row ::
  "'a list \<Rightarrow> 'a list \<Rightarrow> nat \<Rightarrow> nat \<Rightarrow> nat \<Rightarrow>
   (nat \<rightharpoonup> nat) \<times> nat \<times> nat \<times> nat \<Rightarrow> (nat \<rightharpoonup> nat) \<times> nat \<times> nat \<times> nat"
where
  "flm_row a b blo bhi i st = flm_inner i blo bhi (fst st) (b2j b (a ! i)) (Map.empty, snd st)"

text \<open>
  The two loops that extend the best block by elements that are not junk. The set
  \<^verbatim>\<open>bjunk\<close> is empty without a junk predicate, so \<^verbatim>\<open>isbjunk\<close> is false everywhere: the
  test \<^verbatim>\<open>not isbjunk(...)\<close> is dropped here, and the two loops over junk that follow in
  the library never run.
\<close>

function extend_left :: "'a list \<Rightarrow> 'a list \<Rightarrow> nat \<Rightarrow> nat \<Rightarrow> nat \<times> nat \<times> nat \<Rightarrow> nat \<times> nat \<times> nat" where
  "extend_left a b alo blo (besti, bestj, bestsize) =
     (if alo < besti \<and> blo < bestj \<and> a ! (besti - 1) = b ! (bestj - 1)
      then extend_left a b alo blo (besti - 1, bestj - 1, bestsize + 1)
      else (besti, bestj, bestsize))"
  by pat_completeness auto
termination
  by (relation "measure (\<lambda>(a, b, alo, blo, besti, bestj, bestsize). besti)") auto

function extend_right :: "'a list \<Rightarrow> 'a list \<Rightarrow> nat \<Rightarrow> nat \<Rightarrow> nat \<times> nat \<times> nat \<Rightarrow> nat \<times> nat \<times> nat" where
  "extend_right a b ahi bhi (besti, bestj, bestsize) =
     (if besti + bestsize < ahi \<and> bestj + bestsize < bhi \<and>
         a ! (besti + bestsize) = b ! (bestj + bestsize)
      then extend_right a b ahi bhi (besti, bestj, bestsize + 1)
      else (besti, bestj, bestsize))"
  by pat_completeness auto
termination
  by (relation "measure (\<lambda>(a, b, ahi, bhi, besti, bestj, bestsize). ahi - (besti + bestsize))") auto

definition find_longest_match ::
  "'a list \<Rightarrow> 'a list \<Rightarrow> nat \<Rightarrow> nat \<Rightarrow> nat \<Rightarrow> nat \<Rightarrow> nat \<times> nat \<times> nat"
where
  "find_longest_match a b alo ahi blo bhi =
     extend_right a b ahi bhi
       (extend_left a b alo blo
         (snd (fold (flm_row a b blo bhi) [alo..<ahi] (Map.empty, alo, blo, 0))))"

declare extend_left.simps [simp del] extend_right.simps [simp del]

text \<open>
  The block that \<open>find_longest_match\<close> returns lies inside the two ranges it was asked
  about. The queue loop of \<^verbatim>\<open>get_matching_blocks\<close> terminates because of it.
\<close>

definition j2len_ok :: "nat \<Rightarrow> nat \<Rightarrow> (nat \<rightharpoonup> nat) \<Rightarrow> bool" where
  "j2len_ok blo w j2len = (\<forall>j v. j2len j = Some v \<longrightarrow> blo \<le> j \<and> v \<le> w \<and> v \<le> j + 1 - blo)"

definition best_ok :: "nat \<Rightarrow> nat \<Rightarrow> nat \<Rightarrow> nat \<Rightarrow> nat \<times> nat \<times> nat \<Rightarrow> bool" where
  "best_ok alo blo n bhi best =
     (case best of (besti, bestj, bestsize) \<Rightarrow>
        alo \<le> besti \<and> blo \<le> bestj \<and> (if bestsize = 0 then besti = alo \<and> bestj = blo
         else besti + bestsize \<le> n \<and> bestj + bestsize \<le> bhi))"

lemma flm_inner_ok:
  assumes "j2len_ok blo (i - alo) j2len" and "alo \<le> i"
    and "j2len_ok blo (i + 1 - alo) newj2len" and "best_ok alo blo (i + 1) bhi best"
  shows "j2len_ok blo (i + 1 - alo) (fst (flm_inner i blo bhi j2len js (newj2len, best)))
       \<and> best_ok alo blo (i + 1) bhi (snd (flm_inner i blo bhi j2len js (newj2len, best)))"
  using assms(3,4)
proof (induction js arbitrary: newj2len best)
  case Nil
  then show ?case by simp
next
  case (Cons j js)
  obtain besti bestj bestsize where best: "best = (besti, bestj, bestsize)"
    by (cases best) auto
  show ?case
  proof (cases "j < blo \<or> bhi \<le> j")
    case True
    then show ?thesis using Cons best by auto
  next
    case False
    define k where "k = (if j = 0 then 0 else (case j2len (j - 1) of None \<Rightarrow> 0 | Some v \<Rightarrow> v)) + 1"
    have k0: "0 < k" by (simp add: k_def)
    have k1: "k \<le> i + 1 - alo \<and> k \<le> j + 1 - blo"
    proof (cases "j = 0 \<or> j2len (j - 1) = None")
      case True
      then show ?thesis using assms(2) False by (auto simp: k_def)
    next
      case nz: False
      then obtain v where v: "j2len (j - 1) = Some v" by auto
      with assms(1) have "blo \<le> j - 1 \<and> v \<le> i - alo \<and> v \<le> j - 1 + 1 - blo"
        unfolding j2len_ok_def by blast
      with nz v assms(2) False show ?thesis by (auto simp: k_def)
    qed
    then have k2: "k \<le> j + 1 - blo" by simp
    have new: "j2len_ok blo (i + 1 - alo) (newj2len(j \<mapsto> k))"
      using Cons.prems(1) k1 k2 False unfolding j2len_ok_def by auto
    have b': "best_ok alo blo (i + 1) bhi (i + 1 - k, j + 1 - k, k)"
      using k1 k2 k0 False assms(2) unfolding best_ok_def by auto
    have step: "flm_inner i blo bhi j2len (j # js) (newj2len, best) =
        flm_inner i blo bhi j2len js
          (newj2len(j \<mapsto> k), if bestsize < k then (i + 1 - k, j + 1 - k, k) else best)"
      using False by (simp add: best k_def Let_def)
    have "best_ok alo blo (i + 1) bhi (if bestsize < k then (i + 1 - k, j + 1 - k, k) else best)"
      using b' Cons.prems(2) by simp
    from Cons.IH [OF new this] show ?thesis
      unfolding step .
  qed
qed

lemma best_ok_mono: "best_ok alo blo n bhi best \<Longrightarrow> n \<le> m \<Longrightarrow> best_ok alo blo m bhi best"
  by (auto simp: best_ok_def split: prod.splits)

lemma flm_fold_ok:
  "alo \<le> n \<Longrightarrow>
   j2len_ok blo (n - alo) (fst (fold (flm_row a b blo bhi) [alo..<n] (Map.empty, alo, blo, 0)))
   \<and> best_ok alo blo n bhi (snd (fold (flm_row a b blo bhi) [alo..<n] (Map.empty, alo, blo, 0)))"
proof (induction n)
  case 0
  then show ?case by (simp add: j2len_ok_def best_ok_def)
next
  case (Suc n)
  show ?case
  proof (cases "alo \<le> n")
    case True
    define st where "st = fold (flm_row a b blo bhi) [alo..<n] (Map.empty, alo, blo, 0)"
    have ih: "j2len_ok blo (n - alo) (fst st)" "best_ok alo blo n bhi (snd st)"
      using Suc.IH [OF True] by (simp_all add: st_def)
    have e: "j2len_ok blo (n + 1 - alo) Map.empty" by (simp add: j2len_ok_def)
    have "fold (flm_row a b blo bhi) [alo..<Suc n] (Map.empty, alo, blo, 0) = flm_row a b blo bhi n st"
      using True by (simp add: st_def)
    moreover have "j2len_ok blo (n + 1 - alo) (fst (flm_row a b blo bhi n st))
       \<and> best_ok alo blo (n + 1) bhi (snd (flm_row a b blo bhi n st))"
      unfolding flm_row_def
      by (rule flm_inner_ok [OF ih(1) True e best_ok_mono [OF ih(2)]]) simp
    ultimately show ?thesis by simp
  next
    case False
    with Suc.prems have "alo = Suc n" by simp
    then show ?thesis by (simp add: j2len_ok_def best_ok_def)
  qed
qed

lemma flm_fold_best_ok:
  "best_ok alo blo n bhi (snd (fold (flm_row a b blo bhi) [alo..<n] (Map.empty, alo, blo, 0)))"
proof (cases "alo \<le> n")
  case True
  then show ?thesis using flm_fold_ok by blast
next
  case False
  then show ?thesis by (simp add: best_ok_def)
qed

lemma extend_left_ok:
  "best_ok alo blo n bhi best \<Longrightarrow> best_ok alo blo n bhi (extend_left a b alo blo best)"
proof (induction a b alo blo best rule: extend_left.induct)
  case (1 a b alo blo besti bestj bestsize)
  show ?case
  proof (cases "alo < besti \<and> blo < bestj \<and> a ! (besti - 1) = b ! (bestj - 1)")
    case True
    have "best_ok alo blo n bhi (besti - 1, bestj - 1, bestsize + 1)"
      using "1.prems" True unfolding best_ok_def by (auto split: if_splits)
    from "1.IH" [OF True this] True show ?thesis
      by (subst extend_left.simps) simp
  next
    case False
    with "1.prems" show ?thesis
      by (subst extend_left.simps) auto
  qed
qed

definition block_ok :: "nat \<Rightarrow> nat \<Rightarrow> nat \<Rightarrow> nat \<Rightarrow> nat \<times> nat \<times> nat \<Rightarrow> bool" where
  "block_ok alo ahi blo bhi best =
     (case best of (i, j, k) \<Rightarrow>
        alo \<le> i \<and> blo \<le> j \<and> (k \<noteq> 0 \<longrightarrow> i + k \<le> ahi \<and> j + k \<le> bhi))"

lemma extend_right_ok:
  "block_ok alo ahi blo bhi best \<Longrightarrow> block_ok alo ahi blo bhi (extend_right a b ahi bhi best)"
proof (induction a b ahi bhi best rule: extend_right.induct)
  case (1 a b ahi bhi besti bestj bestsize)
  show ?case
  proof (cases "besti + bestsize < ahi \<and> bestj + bestsize < bhi \<and>
         a ! (besti + bestsize) = b ! (bestj + bestsize)")
    case True
    have "block_ok alo ahi blo bhi (besti, bestj, bestsize + 1)"
      using "1.prems" True unfolding block_ok_def by auto
    from "1.IH" [OF True this] True show ?thesis
      by (subst extend_right.simps) simp
  next
    case False
    with "1.prems" show ?thesis
      by (subst extend_right.simps) auto
  qed
qed

lemma find_longest_match_bounds:
  "block_ok alo ahi blo bhi (find_longest_match a b alo ahi blo bhi)"
proof -
  have "best_ok alo blo ahi bhi
          (extend_left a b alo blo
            (snd (fold (flm_row a b blo bhi) [alo..<ahi] (Map.empty, alo, blo, 0))))"
    by (rule extend_left_ok [OF flm_fold_best_ok])
  then have "block_ok alo ahi blo bhi
          (extend_left a b alo blo
            (snd (fold (flm_row a b blo bhi) [alo..<ahi] (Map.empty, alo, blo, 0))))"
    by (auto simp: best_ok_def block_ok_def split: prod.splits if_splits)
  then show ?thesis
    unfolding find_longest_match_def by (rule extend_right_ok)
qed

text \<open>
  The queue loop of \<^verbatim>\<open>get_matching_blocks\<close>. The queue is a stack: \<^verbatim>\<open>queue.pop()\<close> takes
  the range appended last, which is the head of the list here.
\<close>

definition queue_size :: "(nat \<times> nat \<times> nat \<times> nat) list \<Rightarrow> nat" where
  "queue_size queue = sum_list (map (\<lambda>(alo, ahi, blo, bhi). 2 * (ahi - alo) + 1) queue)"

function blocks_loop ::
  "'a list \<Rightarrow> 'a list \<Rightarrow> (nat \<times> nat \<times> nat \<times> nat) list \<Rightarrow> (nat \<times> nat \<times> nat) list \<Rightarrow>
   (nat \<times> nat \<times> nat) list"
where
  "blocks_loop a b [] matching_blocks = matching_blocks"
| "blocks_loop a b ((alo, ahi, blo, bhi) # queue) matching_blocks =
     (case find_longest_match a b alo ahi blo bhi of
        (i, j, k) \<Rightarrow>
          if k \<noteq> 0 then
            blocks_loop a b
              ((if i + k < ahi \<and> j + k < bhi then [(i + k, ahi, j + k, bhi)] else []) @
               (if alo < i \<and> blo < j then [(alo, i, blo, j)] else []) @ queue)
              (matching_blocks @ [(i, j, k)])
          else blocks_loop a b queue matching_blocks)"
  by pat_completeness auto
termination
proof (relation "measure (\<lambda>(a, b, queue, matching_blocks). queue_size queue)", goal_cases)
  case 1
  show ?case by simp
next
  case (2 a b alo ahi blo bhi queue matching_blocks i y j k)
  have flm: "find_longest_match a b alo ahi blo bhi = (i, j, k)"
    using 2(1) [symmetric] 2(2) [symmetric] by simp
  have "alo \<le> i \<and> i + k \<le> ahi"
    using find_longest_match_bounds [of alo ahi blo bhi a b] 2(3)
    unfolding flm block_ok_def by simp
  with 2(3) show ?case by (auto simp: queue_size_def)
next
  case (3 a b alo ahi blo bhi queue matching_blocks i y j k)
  show ?case by (simp add: queue_size_def)
qed

text \<open>
  The rest of \<^verbatim>\<open>get_matching_blocks\<close>: the blocks are sorted, adjacent blocks are
  merged, and the sentinel \<open>(la, lb, 0)\<close> is added.
\<close>

fun collapse_step ::
  "nat \<times> nat \<times> nat \<Rightarrow> (nat \<times> nat \<times> nat) \<times> (nat \<times> nat \<times> nat) list \<Rightarrow>
   (nat \<times> nat \<times> nat) \<times> (nat \<times> nat \<times> nat) list"
where
  "collapse_step (i2, j2, k2) ((i1, j1, k1), non_adjacent) =
     (if i1 + k1 = i2 \<and> j1 + k1 = j2 then ((i1, j1, k1 + k2), non_adjacent)
      else ((i2, j2, k2), if k1 \<noteq> 0 then non_adjacent @ [(i1, j1, k1)] else non_adjacent))"

definition get_matching_blocks :: "'a list \<Rightarrow> 'a list \<Rightarrow> (nat \<times> nat \<times> nat) list" where
  "get_matching_blocks a b =
     (let la = length a; lb = length b;
          matching_blocks = sort (blocks_loop a b [(0, la, 0, lb)] []);
          last_state = fold collapse_step matching_blocks ((0, 0, 0), []);
          non_adjacent =
            (if snd (snd (fst last_state)) \<noteq> 0 then snd last_state @ [fst last_state]
             else snd last_state)
      in non_adjacent @ [(la, lb, 0)])"

text \<open>
  \<^verbatim>\<open>_calculate_ratio\<close>. The score is a Python float; it is modelled by the rational
  number it rounds, so comparisons of scores are comparisons of the exact quotients.
  (Rounding is monotone, and two quotients \<open>2 * m / n\<close> with totals below \<open>2^26\<close> that
  differ are too far apart to round to the same float.)
\<close>

definition calculate_ratio :: "nat \<Rightarrow> nat \<Rightarrow> rat" where
  "calculate_ratio matches len = (if len \<noteq> 0 then 2 * of_nat matches / of_nat len else 1)"

definition ratio :: "'a list \<Rightarrow> 'a list \<Rightarrow> rat" where
  "ratio a b =
     calculate_ratio (sum_list (map (\<lambda>triple. snd (snd triple)) (get_matching_blocks a b)))
       (length a + length b)"

section \<open>Name matcher: \<^verbatim>\<open>similarity\<close> and \<^verbatim>\<open>find_best_match\<close>\<close>

text \<open>
  \<^verbatim>\<open>str.lower()\<close> for code points below 256: the letters A to Z and the capital letters
  of the Latin-1 supplement (0xC0 to 0xDE without the multiplication sign 0xD7) move up
  by 32.
\<close>

definition lower_char :: "char \<Rightarrow> char" where
  "lower_char c =
     (let n = (of_char c :: nat)
      in if (65 \<le> n \<and> n \<le> 90) \<or> (192 \<le> n \<and> n \<le> 222 \<and> n \<noteq> 215) then char_of (n + 32) else c)"

definition lower :: "string \<Rightarrow> string" where
  "lower s = map lower_char s"

definition similarity :: "string \<Rightarrow> string \<Rightarrow> rat" where
  "similarity a b = ratio (lower a) (lower b)"

definition MIN_SIMILARITY :: rat where
  "MIN_SIMILARITY = 82 / 100"

text \<open>
  The two nested loops of \<^verbatim>\<open>find_best_match\<close>; the state is \<^verbatim>\<open>(best_id, best_score)\<close>,
  with \<open>None\<close> for Python's \<^verbatim>\<open>None\<close>.
\<close>

definition names_step :: "string \<Rightarrow> string \<Rightarrow> string \<Rightarrow> string option \<times> rat \<Rightarrow> string option \<times> rat" where
  "names_step channel_name cid n st =
     (let score = similarity channel_name n
      in if snd st < score then (Some cid, score) else st)"

definition items_step ::
  "string \<Rightarrow> string \<times> string list \<Rightarrow> string option \<times> rat \<Rightarrow> string option \<times> rat"
where
  "items_step channel_name item st = fold (names_step channel_name (fst item)) (snd item) st"

definition best_scan :: "string \<Rightarrow> (string \<times> string list) list \<Rightarrow> string option \<times> rat" where
  "best_scan channel_name epg_channels = fold (items_step channel_name) epg_channels (None, 0)"

definition find_best_match :: "string \<Rightarrow> (string \<times> string list) list \<Rightarrow> string option \<times> rat" where
  "find_best_match channel_name epg_channels =
     (let best = best_scan channel_name epg_channels
      in if MIN_SIMILARITY \<le> snd best then (fst best, snd best) else (None, snd best))"

section \<open>The pipeline: \<^verbatim>\<open>main\<close>\<close>

text \<open>
  The matching loop of \<^verbatim>\<open>main\<close>. The state is the dictionary \<^verbatim>\<open>mapping\<close> (read only
  through \<^verbatim>\<open>mapping.get\<close>, so a map) and the set \<^verbatim>\<open>used_ids\<close>. The truth test
  \<^verbatim>\<open>if cid:\<close> fails on \<^verbatim>\<open>None\<close> and on the empty identifier.
\<close>

definition match_step ::
  "(string \<times> string list) list \<Rightarrow> string \<times> string \<Rightarrow>
   (string \<rightharpoonup> string) \<times> string set \<Rightarrow> (string \<rightharpoonup> string) \<times> string set"
where
  "match_step epg_channels entry st =
     (case fst (find_best_match (fst entry) epg_channels) of
        None \<Rightarrow> st
      | Some cid \<Rightarrow>
          if cid \<noteq> [] then ((fst st)(fst entry \<mapsto> cid), insert cid (snd st)) else st)"

definition match_all ::
  "(string \<times> string) list \<Rightarrow> (string \<times> string list) list \<Rightarrow> (string \<rightharpoonup> string) \<times> string set"
where
  "match_all channels epg_channels = fold (match_step epg_channels) channels (Map.empty, {})"

section \<open>Guide projector: \<^verbatim>\<open>build_filtered_epg\<close>\<close>

definition default_header :: string where
  "default_header = ''<?xml version=\"1.0\" encoding=\"utf-8\"?><tv>''"

definition epg_header :: "string \<Rightarrow> string" where
  "epg_header epg_xml = (case search_header epg_xml of Some h \<Rightarrow> h | None \<Rightarrow> default_header)"

definition channel_element :: "string \<times> string \<Rightarrow> string" where
  "channel_element block = ''<channel id=\"'' @ fst block @ ''\">'' @ snd block @ ''</channel>''"

definition programme_element :: "string \<Rightarrow> string" where
  "programme_element block = ''<programme'' @ block @ ''</programme>''"

text \<open>The bodies of the two loops that append to \<^verbatim>\<open>out\<close>.\<close>

definition channel_step :: "string set \<Rightarrow> string \<times> string \<Rightarrow> string list \<Rightarrow> string list" where
  "channel_step used_ids block out =
     (if fst block \<in> used_ids then out @ [channel_element block] else out)"

definition programme_step :: "string set \<Rightarrow> string \<Rightarrow> string list \<Rightarrow> string list" where
  "programme_step used_ids block out =
     (case search_channel_attr block of
        None \<Rightarrow> out
      | Some ch \<Rightarrow> if ch \<in> used_ids then out @ [programme_element block] else out)"

definition filtered_out :: "string \<Rightarrow> string set \<Rightarrow> string list" where
  "filtered_out epg_xml used_ids =
     (let header = epg_header epg_xml;
          footer = ''</tv>'';
          channels = findall_channel epg_xml;
          programmes = findall_programme epg_xml;
          out = fold (programme_step used_ids) programmes
                  (fold (channel_step used_ids) channels [header])
      in out @ [footer])"

definition build_filtered_epg :: "string \<Rightarrow> string set \<Rightarrow> string" where
  "build_filtered_epg epg_xml used_ids = join [LF] (filtered_out epg_xml used_ids)"

text \<open>
  The channel blocks and the programme blocks that reach the projected guide, in the
  order the two loops emit them.
\<close>

definition emitted_channels :: "string \<Rightarrow> string set \<Rightarrow> (string \<times> string) list" where
  "emitted_channels epg_xml used_ids =
     filter (\<lambda>block. fst block \<in> used_ids) (findall_channel epg_xml)"

definition programme_kept :: "string set \<Rightarrow> string \<Rightarrow> bool" where
  "programme_kept used_ids block =
     (case search_channel_attr block of None \<Rightarrow> False | Some ch \<Rightarrow> ch \<in> used_ids)"

definition emitted_programmes :: "string \<Rightarrow> string set \<Rightarrow> string list" where
  "emitted_programmes epg_xml used_ids =
     filter (programme_kept used_ids) (findall_programme epg_xml)"

text \<open>
  The part of \<^verbatim>\<open>main\<close> between the two downloads and the two writes: the text of the
  new playlist and the text of the filtered guide.
\<close>

definition pipeline :: "string \<Rightarrow> string \<Rightarrow> string \<times> string" where
  "pipeline m3u_text epg_xml =
     (let channels = parse_m3u_channels m3u_text;
          epg_channels = parse_epg_channels epg_xml;
          matched = match_all channels epg_channels;
          new_m3u = build_new_m3u channels (fst matched);
          filtered_epg = build_filtered_epg epg_xml (snd matched)
      in (new_m3u, filtered_epg))"

section \<open>Guide download: the decoding in \<^verbatim>\<open>download_gzip_xml\<close>\<close>

text \<open>
  \<^verbatim>\<open>f.read().decode("utf-8", errors="ignore")\<close>. A byte is a number below 256 and the text
  is the list of its code points. \<open>utf8_next ch rest\<close> reads the sequence that starts
  with the byte \<open>ch\<close>, as CPython's decoder does: either a code point and the number of
  bytes it takes after \<open>ch\<close>, or an invalid range and the number of bytes it takes after
  \<open>ch\<close> (the range ends before the first byte that cannot continue the sequence, or at
  the end of the data).
\<close>

datatype utf8_step = Good nat nat | Bad nat

definition cont :: "nat \<Rightarrow> bool" where
  "cont b = (0x80 \<le> b \<and> b < 0xC0)"

definition utf8_next :: "nat \<Rightarrow> nat list \<Rightarrow> utf8_step" where
  "utf8_next ch rest =
     (if ch < 0x80 then Good ch 0
      else if ch < 0xC2 then Bad 0
      else if ch < 0xE0 then
        (case rest of
           [] \<Rightarrow> Bad 0
         | ch2 # r2 \<Rightarrow>
             if \<not> cont ch2 then Bad 0
             else Good ((ch - 0xC0) * 64 + (ch2 - 0x80)) 1)
      else if ch < 0xF0 then
        (case rest of
           [] \<Rightarrow> Bad 0
         | ch2 # r2 \<Rightarrow>
             if \<not> cont ch2 \<or> (ch = 0xE0 \<and> ch2 < 0xA0) \<or> (ch = 0xED \<and> 0xA0 \<le> ch2) then Bad 0
             else
               (case r2 of
                  [] \<Rightarrow> Bad 1
                | ch3 # r3 \<Rightarrow>
                    if \<not> cont ch3 then Bad 1
                    else Good ((ch - 0xE0) * 4096 + (ch2 - 0x80) * 64 + (ch3 - 0x80)) 2))
      else if ch < 0xF5 then
        (case rest of
           [] \<Rightarrow> Bad 0
         | ch2 # r2 \<Rightarrow>
             if \<not> cont ch2 \<or> (ch = 0xF0 \<and> ch2 < 0x90) \<or> (ch = 0xF4 \<and> 0x90 \<le> ch2) then Bad 0
             else
               (case r2 of
                  [] \<Rightarrow> Bad 1
                | ch3 # r3 \<Rightarrow>
                    if \<not> cont ch3 then Bad 1
                    else
                      (case r3 of
                         [] \<Rightarrow> Bad 2
                       | ch4 # r4 \<Rightarrow>
                           if \<not> cont ch4 then Bad 2
                           else Good ((ch - 0xF0) * 262144 + (ch2 - 0x80) * 4096
                                        + (ch3 - 0x80) * 64 + (ch4 - 0x80)) 3)))
      else Bad 0)"

text \<open>
  The three error handlers: \<^verbatim>\<open>strict\<close> raises \<^verbatim>\<open>UnicodeDecodeError\<close>, \<^verbatim>\<open>ignore\<close> skips the
  invalid range, \<^verbatim>\<open>replace\<close> puts the replacement character U+FFFD in its place.
\<close>

datatype error_mode = Strict | Ignore | Replace

datatype decode_error = UnicodeDecodeError

fun decode_utf8 :: "error_mode \<Rightarrow> nat list \<Rightarrow> decode_error + nat list" where
  "decode_utf8 mode [] = Inr []"
| "decode_utf8 mode (ch # rest) =
     (case utf8_next ch rest of
        Good cp extra \<Rightarrow>
          (case decode_utf8 mode (drop extra rest) of
             Inl e \<Rightarrow> Inl e
           | Inr text \<Rightarrow> Inr (cp # text))
      | Bad extra \<Rightarrow>
          (case mode of
             Strict \<Rightarrow> Inl UnicodeDecodeError
           | Ignore \<Rightarrow> decode_utf8 mode (drop extra rest)
           | Replace \<Rightarrow>
               (case decode_utf8 mode (drop extra rest) of
                  Inl e \<Rightarrow> Inl e
                | Inr text \<Rightarrow> Inr (0xFFFD # text))))"

definition decode_guide :: "nat list \<Rightarrow> decode_error + nat list" where
  "decode_guide content = decode_utf8 Ignore content"

section \<open>Writing the outputs in \<^verbatim>\<open>main\<close>\<close>

definition OUTPUT_M3U :: string where
  "OUTPUT_M3U = ''playlist_su_epg.m3u8''"







declare findall_channel.simps [simp del] findall_programme.simps [simp del]
  search_channel_attr.simps [simp del] findall_display_name.simps [simp del]
  blocks_loop.simps(2) [simp del]

section \<open>Notions used to state the properties\<close>

text \<open>The scores of a name against every alias of the guide, in the order of the loops.\<close>

definition all_scores :: "string \<Rightarrow> (string \<times> string list) list \<Rightarrow> rat list" where
  "all_scores channel_name epg_channels =
     concat (map (\<lambda>item. map (similarity channel_name) (snd item)) epg_channels)"

text \<open>An identifier in the state is a key of the guide mapping that has an alias with the score.\<close>

definition scored_key :: "string \<Rightarrow> (string \<times> string list) list \<Rightarrow> string option \<times> rat \<Rightarrow> bool" where
  "scored_key name epg st =
     (case fst st of
        None \<Rightarrow> True
      | Some cid \<Rightarrow> \<exists>item \<in> set epg. fst item = cid \<and> snd st \<in> similarity name ` set (snd item))"

text \<open>
  The identifier that \<^verbatim>\<open>main\<close> takes from the matcher for a name: the one
  \<^verbatim>\<open>find_best_match\<close> returns, unless that is \<^verbatim>\<open>None\<close> or empty.
\<close>

definition accepted_id :: "(string \<times> string list) list \<Rightarrow> string \<Rightarrow> string option" where
  "accepted_id epg_channels name =
     (case fst (find_best_match name epg_channels) of
        None \<Rightarrow> None
      | Some cid \<Rightarrow> if cid \<noteq> [] then Some cid else None)"

text \<open>The set \<^verbatim>\<open>used_ids\<close> that \<^verbatim>\<open>main\<close> computes from the two source documents.\<close>

definition used_ids_of :: "string \<Rightarrow> string \<Rightarrow> string set" where
  "used_ids_of m3u_text epg_xml =
     snd (match_all (parse_m3u_channels m3u_text) (parse_epg_channels epg_xml))"







text \<open>The scenario of the specification: one playlist entry and one guide channel, \<^verbatim>\<open>LRT HD\<close>.\<close>

definition lrt_m3u :: string where
  "lrt_m3u = ''#EXTINF:-1,LRT HD'' @ [LF] @ ''http://a/lrt'' @ [LF]"

definition lrt_epg :: string where
  "lrt_epg =
     ''<tv><channel id=\"lrt.lt\"><display-name>LRT HD</display-name></channel></tv>''"

text \<open>
  Notions used in the proofs about the similarity score: the sum of the sizes of a list
  of blocks, and the total length of the ranges of a queue in \<open>a\<close> and in \<open>b\<close>.
\<close>

definition size_sum :: "(nat \<times> nat \<times> nat) list \<Rightarrow> nat" where
  "size_sum blocks = sum_list (map (\<lambda>triple. snd (snd triple)) blocks)"

definition span_a :: "(nat \<times> nat \<times> nat \<times> nat) list \<Rightarrow> nat" where
  "span_a queue = sum_list (map (\<lambda>(alo, ahi, blo, bhi). ahi - alo) queue)"

definition span_b :: "(nat \<times> nat \<times> nat \<times> nat) list \<Rightarrow> nat" where
  "span_b queue = sum_list (map (\<lambda>(alo, ahi, blo, bhi). bhi - blo) queue)"

text \<open>
  Notions used in the proof that a sequence has ratio 1 with itself. \<open>run_len s i\<close> is the
  length of the run of elements that are not popular and that ends at index \<open>i\<close>;
  \<open>chain_len j2len j\<close> is the value the inner loop computes at \<open>j\<close>. The predicates say
  what holds of \<^verbatim>\<open>j2len\<close> before and after a row, of the result of the inner loop, and
  of the state of the outer loop, when both sequences are \<open>s\<close>.
\<close>

primrec run_len :: "'a list \<Rightarrow> nat \<Rightarrow> nat" where
  "run_len s 0 = (if is_popular s (s ! 0) then 0 else 1)"
| "run_len s (Suc i) = (if is_popular s (s ! Suc i) then 0 else run_len s i + 1)"

definition chain_len :: "(nat \<rightharpoonup> nat) \<Rightarrow> nat \<Rightarrow> nat" where
  "chain_len j2len j = (if j = 0 then 0 else (case j2len (j - 1) of None \<Rightarrow> 0 | Some v \<Rightarrow> v)) + 1"

definition row_ready :: "'a list \<Rightarrow> nat \<Rightarrow> (nat \<rightharpoonup> nat) \<Rightarrow> bool" where
  "row_ready s i j2len =
     ((\<forall>j. \<not> is_popular s (s ! j) \<longrightarrow> chain_len j2len j \<le> run_len s j)
      \<and> (\<not> is_popular s (s ! i) \<longrightarrow>
           (\<forall>j. chain_len j2len j \<le> run_len s i) \<and> chain_len j2len i = run_len s i))"

definition row_done :: "'a list \<Rightarrow> nat \<Rightarrow> (nat \<rightharpoonup> nat) \<Rightarrow> bool" where
  "row_done s i newj2len =
     ((\<forall>j v. newj2len j = Some v \<longrightarrow> v \<le> run_len s j \<and> v \<le> run_len s i)
      \<and> newj2len i = (if is_popular s (s ! i) then None else Some (run_len s i)))"

definition inner_post :: "'a list \<Rightarrow> nat \<Rightarrow> nat \<Rightarrow> (nat \<rightharpoonup> nat) \<times> nat \<times> nat \<times> nat \<Rightarrow> bool" where
  "inner_post s i bs r =
     (case r of (new', bi', bj', bs') \<Rightarrow>
        bi' = bj' \<and> bs \<le> bs' \<and> run_len s i \<le> bs'
        \<and> (\<forall>j v. new' j = Some v \<longrightarrow> v \<le> run_len s j \<and> v \<le> run_len s i)
        \<and> new' i = Some (run_len s i))"

definition diag_state :: "'a list \<Rightarrow> nat \<Rightarrow> (nat \<rightharpoonup> nat) \<times> nat \<times> nat \<times> nat \<Rightarrow> bool" where
  "diag_state s m st =
     (case st of (j2len, bi, bj, bs) \<Rightarrow>
        bi = bj \<and> (\<forall>t < m. run_len s t \<le> bs) \<and> row_ready s m j2len)"

section \<open>Properties of the playlist parser\<close>

lemma m3u_scan_snoc: "m3u_scan (pre @ [raw]) = m3u_step raw (m3u_scan pre)"
  by (simp add: m3u_scan_def)

lemma m3u_step_extinf_comma:
  assumes "startswith (strip raw) ''#EXTINF''" and "CHR '','' \<in> set (strip raw)"
  shows "m3u_step raw st = (fst st, Some (strip (after_first_comma (strip raw))))"
  using assms by (simp add: m3u_step_def Let_def)

lemma m3u_step_extinf_no_comma:
  assumes "startswith (strip raw) ''#EXTINF''" and "CHR '','' \<notin> set (strip raw)"
  shows "m3u_step raw st = (fst st, None)"
  using assms by (simp add: m3u_step_def Let_def)

lemma m3u_step_no_pending: "fst (m3u_step nxt (chs, None)) = chs"
  by (simp add: m3u_step_def Let_def)

text \<open>
  C9. Wherever a metadata line (\<^verbatim>\<open>#EXTINF\<close>) stands in the playlist: if it holds a comma,
  the pending name after it is the trimmed text behind its first comma; if it holds no
  comma, the pending name after it is absent, and the line that follows adds no entry:
  it is dropped, not emitted with an empty name.
\<close>

theorem parse_m3u_pending_name:
  "(startswith (strip raw) ''#EXTINF'' \<and> CHR '','' \<in> set (strip raw) \<longrightarrow>
      m3u_scan (pre @ [raw]) =
        (fst (m3u_scan pre), Some (strip (after_first_comma (strip raw)))))
   \<and> (startswith (strip raw) ''#EXTINF'' \<and> CHR '','' \<notin> set (strip raw) \<longrightarrow>
      m3u_scan (pre @ [raw]) = (fst (m3u_scan pre), None)
      \<and> fst (m3u_scan (pre @ [raw, nxt])) = fst (m3u_scan pre))"
proof (intro conjI impI)
  assume "startswith (strip raw) ''#EXTINF'' \<and> CHR '','' \<in> set (strip raw)"
  then show "m3u_scan (pre @ [raw]) =
      (fst (m3u_scan pre), Some (strip (after_first_comma (strip raw))))"
    by (simp add: m3u_scan_snoc m3u_step_extinf_comma)
next
  assume h: "startswith (strip raw) ''#EXTINF'' \<and> CHR '','' \<notin> set (strip raw)"
  then show none: "m3u_scan (pre @ [raw]) = (fst (m3u_scan pre), None)"
    by (simp add: m3u_scan_snoc m3u_step_extinf_no_comma)
  have "m3u_scan (pre @ [raw, nxt]) = m3u_step nxt (m3u_scan (pre @ [raw]))"
    using m3u_scan_snoc [of "pre @ [raw]" nxt] by simp
  then show "fst (m3u_scan (pre @ [raw, nxt])) = fst (m3u_scan pre)"
    by (simp add: none m3u_step_no_pending)
qed

theorem parse_m3u_pending_name_witness:
  "m3u_scan [''#EXTM3U'', ''#EXTINF:-1 group=\"tv\", LRT HD ''] = ([], Some ''LRT HD'')
   \<and> m3u_scan [''#EXTM3U'', ''#EXTINF:-1''] = ([], None)
   \<and> fst (m3u_scan [''#EXTM3U'', ''#EXTINF:-1'', ''http://a/1'']) = []"
proof -
  have h1: "startswith (strip ''#EXTINF:-1 group=\"tv\", LRT HD '') ''#EXTINF''
      \<and> CHR '','' \<in> set (strip ''#EXTINF:-1 group=\"tv\", LRT HD '')"
    by code_simp
  have h2: "startswith (strip ''#EXTINF:-1'') ''#EXTINF'' \<and> CHR '','' \<notin> set (strip ''#EXTINF:-1'')"
    by code_simp
  have v: "strip (after_first_comma (strip ''#EXTINF:-1 group=\"tv\", LRT HD '')) = ''LRT HD''"
    by code_simp
  have p: "fst (m3u_scan [''#EXTM3U'']) = []"
    by code_simp
  show ?thesis
    using parse_m3u_pending_name [of "''#EXTINF:-1 group=\"tv\", LRT HD ''" "[''#EXTM3U'']"]
      parse_m3u_pending_name [of "''#EXTINF:-1''" "[''#EXTM3U'']" "''http://a/1''"] h1 h2
    by (simp add: v p)
qed

section \<open>Properties of the playlist projector\<close>

lemma fold_m3u_entry_step:
  "fold (m3u_entry_step mapping) channels acc =
     acc @ concat (map (\<lambda>entry. [extinf_line mapping (fst entry), snd entry]) channels)"
  by (induction channels arbitrary: acc) (simp_all add: m3u_entry_step_def)

lemma build_out_lines_eq:
  "build_out_lines channels mapping =
     m3u_header # concat (map (\<lambda>entry. [extinf_line mapping (fst entry), snd entry]) channels)"
  by (simp add: build_out_lines_def fold_m3u_entry_step)

lemma join_terminated: "xs \<noteq> [] \<Longrightarrow> join sep xs @ sep = concat (map (\<lambda>l. l @ sep) xs)"
  by (induction sep xs rule: join.induct) simp_all

lemma nth_concat_pairs:
  "i < length xs \<Longrightarrow>
     concat (map (\<lambda>e. [f e, g e]) xs) ! (2 * i) = f (xs ! i)
     \<and> concat (map (\<lambda>e. [f e, g e]) xs) ! (2 * i + 1) = g (xs ! i)"
proof (induction xs arbitrary: i)
  case Nil
  then show ?case by simp
next
  case (Cons x xs)
  show ?case
  proof (cases i)
    case 0
    then show ?thesis by simp
  next
    case (Suc n)
    with Cons.prems have "n < length xs" by simp
    from Cons.IH [OF this] Suc show ?thesis by simp
  qed
qed

text \<open>
  C4. For every list of entries and every mapping, the lines of the projected playlist
  are the header followed by one metadata line and one URL line per entry, in the order
  of the entries: line \<open>2 * i + 1\<close> is the metadata line of entry \<open>i\<close> and line
  \<open>2 * i + 2\<close> is its URL, whether or not the mapping holds the entry's name; and the
  document is these lines, each ended by a line feed.
\<close>

theorem build_new_m3u_keeps_entries:
  "length (build_out_lines channels mapping) = 1 + 2 * length channels
   \<and> (\<forall>i < length channels.
        build_out_lines channels mapping ! (2 * i + 1) = extinf_line mapping (fst (channels ! i))
        \<and> build_out_lines channels mapping ! (2 * i + 2) = snd (channels ! i))
   \<and> build_new_m3u channels mapping =
        concat (map (\<lambda>l. l @ [LF]) (build_out_lines channels mapping))"
proof (intro conjI allI impI)
  show "length (build_out_lines channels mapping) = 1 + 2 * length channels"
    by (simp add: build_out_lines_eq length_concat comp_def sum_list_triv)
next
  fix i assume i: "i < length channels"
  from nth_concat_pairs [OF i, of "\<lambda>e. extinf_line mapping (fst e)" snd]
  show "build_out_lines channels mapping ! (2 * i + 1) = extinf_line mapping (fst (channels ! i))"
    and "build_out_lines channels mapping ! (2 * i + 2) = snd (channels ! i)"
    by (simp_all add: build_out_lines_eq)
next
  have "build_out_lines channels mapping \<noteq> []"
    by (simp add: build_out_lines_eq)
  then show "build_new_m3u channels mapping =
      concat (map (\<lambda>l. l @ [LF]) (build_out_lines channels mapping))"
    unfolding build_new_m3u_def by (rule join_terminated)
qed

theorem build_new_m3u_keeps_entries_witness:
  "build_out_lines [(''LRT HD'', ''http://a/1''), (''XYZ'', ''http://a/2'')] [''LRT HD'' \<mapsto> ''lrt.lt'']
     = [m3u_header, ''#EXTINF:-1 tvg-id=\"lrt.lt\",LRT HD'', ''http://a/1'',
        ''#EXTINF:-1,XYZ'', ''http://a/2'']"
proof -
  let ?chs = "[(''LRT HD'', ''http://a/1''), (''XYZ'', ''http://a/2'')]"
  let ?m = "[''LRT HD'' \<mapsto> ''lrt.lt'']"
  note t = build_new_m3u_keeps_entries [of ?chs ?m]
  from t have len: "length (build_out_lines ?chs ?m) = 5"
    by simp
  from t have nth: "\<forall>i<2. build_out_lines ?chs ?m ! (2 * i + 1) = extinf_line ?m (fst (?chs ! i))
      \<and> build_out_lines ?chs ?m ! (2 * i + 2) = snd (?chs ! i)"
    by simp
  from nth [rule_format, of 0] nth [rule_format, of 1]
  have l1: "build_out_lines ?chs ?m ! 1 = extinf_line ?m ''LRT HD''"
    and l2: "build_out_lines ?chs ?m ! 2 = ''http://a/1''"
    and l3: "build_out_lines ?chs ?m ! 3 = extinf_line ?m ''XYZ''"
    and l4: "build_out_lines ?chs ?m ! 4 = ''http://a/2''"
    by (simp_all add: eval_nat_numeral)
  have l0: "build_out_lines ?chs ?m ! 0 = m3u_header"
    by (simp add: build_out_lines_def m3u_entry_step_def)
  have e1: "extinf_line ?m ''LRT HD'' = ''#EXTINF:-1 tvg-id=\"lrt.lt\",LRT HD''"
    and e2: "extinf_line ?m ''XYZ'' = ''#EXTINF:-1,XYZ''"
    by (simp_all add: extinf_line_def)
  show ?thesis
    by (rule nth_equalityI) (use len l0 l1 l2 l3 l4 e1 e2 in \<open>auto simp: less_Suc_eq numeral_eq_Suc\<close>)
qed

section \<open>Properties of the name matcher\<close>

lemma names_step_score:
  "snd (fold (names_step name cid) ns st) = fold max (map (similarity name) ns) (snd st)"
  by (induction ns arbitrary: st) (auto simp: names_step_def Let_def max_def)

lemma items_step_score:
  "snd (fold (items_step name) epg st) = fold max (all_scores name epg) (snd st)"
  by (induction epg arbitrary: st) (simp_all add: items_step_def all_scores_def names_step_score)

lemma best_scan_score:
  "snd (best_scan name epg) = Max (insert 0 (set (all_scores name epg)))"
  by (simp add: best_scan_def items_step_score Max.set_eq_fold [symmetric])

text \<open>The identifier in the state is absent only while the score is still zero.\<close>

lemma names_step_id:
  "(fst st = None \<longrightarrow> snd st \<le> 0) \<Longrightarrow>
   (fst (fold (names_step name cid) ns st) = None \<longrightarrow> snd (fold (names_step name cid) ns st) \<le> 0)"
  by (induction ns arbitrary: st) (auto simp: names_step_def Let_def)

lemma items_step_id:
  "(fst st = None \<longrightarrow> snd st \<le> 0) \<Longrightarrow>
   (fst (fold (items_step name) epg st) = None \<longrightarrow> snd (fold (items_step name) epg st) \<le> 0)"
proof (induction epg arbitrary: st)
  case Nil
  then show ?case by simp
next
  case (Cons item epg)
  have "fst (items_step name item st) = None \<longrightarrow> snd (items_step name item st) \<le> 0"
    unfolding items_step_def by (rule names_step_id [OF Cons.prems])
  from Cons.IH [OF this] show ?case by simp
qed

lemma best_scan_id: "fst (best_scan name epg) = None \<Longrightarrow> snd (best_scan name epg) \<le> 0"
  using items_step_id [of "(None, 0)" name epg] by (simp add: best_scan_def)

lemma names_step_key:
  "scored_key name epg st \<Longrightarrow> (cid, names) \<in> set epg \<Longrightarrow> set ns \<subseteq> set names \<Longrightarrow>
   scored_key name epg (fold (names_step name cid) ns st)"
proof (induction ns arbitrary: st)
  case Nil
  then show ?case by simp
next
  case (Cons n ns)
  have "scored_key name epg (names_step name cid n st)"
  proof (cases "snd st < similarity name n")
    case True
    then have "names_step name cid n st = (Some cid, similarity name n)"
      by (simp add: names_step_def)
    moreover have "n \<in> set names" using Cons.prems(3) by simp
    ultimately show ?thesis
      using Cons.prems(2) unfolding scored_key_def by force
  next
    case False
    then show ?thesis using Cons.prems(1) by (simp add: names_step_def)
  qed
  moreover have "set ns \<subseteq> set names" using Cons.prems(3) by simp
  ultimately show ?case using Cons.IH Cons.prems(2) by simp
qed

lemma items_step_key:
  "scored_key name epg st \<Longrightarrow> set items \<subseteq> set epg \<Longrightarrow>
   scored_key name epg (fold (items_step name) items st)"
proof (induction items arbitrary: st)
  case Nil
  then show ?case by simp
next
  case (Cons item items)
  have "(fst item, snd item) \<in> set epg" using Cons.prems(2) by simp
  from names_step_key [OF Cons.prems(1) this subset_refl]
  have "scored_key name epg (items_step name item st)"
    by (simp add: items_step_def)
  moreover have "set items \<subseteq> set epg" using Cons.prems(2) by simp
  ultimately show ?case using Cons.IH by simp
qed

lemma best_scan_key: "scored_key name epg (best_scan name epg)"
  unfolding best_scan_def by (rule items_step_key) (simp_all add: scored_key_def)

lemma find_best_match_key:
  assumes "fst (find_best_match name epg) = Some cid"
  shows "cid \<in> fst ` set epg"
proof -
  from assms have "fst (best_scan name epg) = Some cid"
    by (auto simp: find_best_match_def Let_def split: if_splits)
  with best_scan_key [of name epg] show ?thesis
    by (auto simp: scored_key_def)
qed

lemma MIN_SIMILARITY_pos: "0 < MIN_SIMILARITY"
  by (simp add: MIN_SIMILARITY_def)

text \<open>
  C1. The name matcher returns an identifier exactly when the guide mapping has at least
  one alias and the maximum of the scores of the name against all aliases is at least
  \<open>MIN_SIMILARITY = 0.82\<close> (so a maximum of exactly 0.82 is accepted and every maximum
  below it is rejected); the score it returns is that maximum (zero for a mapping
  without aliases); and an identifier it returns is a key of the mapping one of whose
  aliases has that score.
\<close>

theorem find_best_match_threshold:
  "(fst (find_best_match name epg) \<noteq> None) =
     (all_scores name epg \<noteq> [] \<and> MIN_SIMILARITY \<le> Max (set (all_scores name epg)))
   \<and> snd (find_best_match name epg) = Max (insert 0 (set (all_scores name epg)))
   \<and> MIN_SIMILARITY = 82 / 100
   \<and> (\<forall>cid. fst (find_best_match name epg) = Some cid \<longrightarrow>
        (\<exists>item \<in> set epg. fst item = cid \<and>
           snd (find_best_match name epg) \<in> similarity name ` set (snd item)))"
proof (intro conjI allI impI)
  let ?S = "set (all_scores name epg)"
  have score: "snd (best_scan name epg) = Max (insert 0 ?S)"
    by (rule best_scan_score)
  have accept: "(fst (find_best_match name epg) \<noteq> None) = (MIN_SIMILARITY \<le> Max (insert 0 ?S))"
  proof (cases "MIN_SIMILARITY \<le> snd (best_scan name epg)")
    case True
    with MIN_SIMILARITY_pos have "\<not> snd (best_scan name epg) \<le> 0" by simp
    with best_scan_id have "fst (best_scan name epg) \<noteq> None" by blast
    with True show ?thesis by (simp add: find_best_match_def Let_def score)
  next
    case False
    then show ?thesis by (simp add: find_best_match_def Let_def score)
  qed
  have "(MIN_SIMILARITY \<le> Max (insert 0 ?S)) = (?S \<noteq> {} \<and> MIN_SIMILARITY \<le> Max ?S)"
  proof (cases "?S = {}")
    case True
    then show ?thesis using MIN_SIMILARITY_pos by simp
  next
    case False
    then have "Max (insert 0 ?S) = max 0 (Max ?S)" by simp
    then show ?thesis using False MIN_SIMILARITY_pos by (auto simp: max_def)
  qed
  with accept show "(fst (find_best_match name epg) \<noteq> None) =
      (all_scores name epg \<noteq> [] \<and> MIN_SIMILARITY \<le> Max ?S)"
    by simp
  show "snd (find_best_match name epg) = Max (insert 0 ?S)"
    by (simp add: find_best_match_def Let_def score)
  show "MIN_SIMILARITY = 82 / 100"
    by (rule MIN_SIMILARITY_def)
next
  fix cid assume "fst (find_best_match name epg) = Some cid"
  then have "fst (best_scan name epg) = Some cid"
    and "snd (find_best_match name epg) = snd (best_scan name epg)"
    by (auto simp: find_best_match_def Let_def split: if_splits)
  with best_scan_key [of name epg]
  show "\<exists>item \<in> set epg. fst item = cid \<and>
      snd (find_best_match name epg) \<in> similarity name ` set (snd item)"
    by (auto simp: scored_key_def)
qed

text \<open>
  The boundary, on a 41-character name: against an alias that adds 18 characters the score
  is \<open>2 * 41 / 100 = 0.82\<close> and the identifier is returned; against one that adds 19
  characters the score is \<open>82 / 101\<close> and no identifier is returned.
\<close>

theorem find_best_match_threshold_witness:
  "find_best_match ''abcdefghijklmnopqrstuvwxyz0123456789ABCDE''
     [(''far'', [''zzz'']), (''near'', [''abcdefghijklmnopqrstuvwxyz0123456789ABCDE------------------''])]
     = (Some ''near'', 82 / 100)
   \<and> find_best_match ''abcdefghijklmnopqrstuvwxyz0123456789ABCDE''
     [(''far'', [''zzz'']), (''near'', [''abcdefghijklmnopqrstuvwxyz0123456789ABCDE-------------------''])]
     = (None, 82 / 101)"
proof -
  let ?name = "''abcdefghijklmnopqrstuvwxyz0123456789ABCDE''"
  let ?e1 = "[(''far'', [''zzz'']), (''near'', [''abcdefghijklmnopqrstuvwxyz0123456789ABCDE------------------''])]"
  let ?e2 = "[(''far'', [''zzz'']), (''near'', [''abcdefghijklmnopqrstuvwxyz0123456789ABCDE-------------------''])]"
  have s1: "all_scores ?name ?e1 = [1 / 22, 82 / 100]"
    by code_simp
  have s2: "all_scores ?name ?e2 = [1 / 22, 82 / 101]"
    by code_simp
  have sim_near: "similarity ?name ''abcdefghijklmnopqrstuvwxyz0123456789ABCDE------------------'' = 82 / 100"
    and sim_far: "similarity ?name ''zzz'' = 1 / 22"
    by code_simp+
  note t1 = find_best_match_threshold [of ?name ?e1]
  note t2 = find_best_match_threshold [of ?name ?e2]
  from t1 have a1: "fst (find_best_match ?name ?e1) \<noteq> None"
    and b1: "snd (find_best_match ?name ?e1) = 82 / 100"
    by (simp_all add: s1 MIN_SIMILARITY_def)
  from a1 obtain cid where cid: "fst (find_best_match ?name ?e1) = Some cid"
    by auto
  with t1 have "\<exists>item \<in> set ?e1. fst item = cid \<and>
      snd (find_best_match ?name ?e1) \<in> similarity ?name ` set (snd item)"
    by blast
  then have "cid = ''near''"
    unfolding b1 by (auto simp: sim_near sim_far)
  with cid b1 have r1: "find_best_match ?name ?e1 = (Some ''near'', 82 / 100)"
    by (simp add: prod_eq_iff)
  from t2 have "fst (find_best_match ?name ?e2) = None"
    and "snd (find_best_match ?name ?e2) = 82 / 101"
    by (simp_all add: s2 MIN_SIMILARITY_def)
  then have r2: "find_best_match ?name ?e2 = (None, 82 / 101)"
    by (simp add: prod_eq_iff)
  from r1 r2 show ?thesis by simp
qed

section \<open>Properties of the matching loop\<close>

lemma match_step_accepted:
  "match_step epg entry st =
     (case accepted_id epg (fst entry) of
        None \<Rightarrow> st
      | Some cid \<Rightarrow> ((fst st)(fst entry \<mapsto> cid), insert cid (snd st)))"
  by (simp add: match_step_def accepted_id_def split: option.splits)

lemma match_step_mapping:
  "fst (match_step epg entry st) name =
     (if name = fst entry
      then (case accepted_id epg name of None \<Rightarrow> fst st name | Some cid \<Rightarrow> Some cid)
      else fst st name)"
  by (cases "accepted_id epg (fst entry)") (auto simp: match_step_accepted)

lemma match_step_used:
  "snd (match_step epg entry st) = snd st \<union> {cid. accepted_id epg (fst entry) = Some cid}"
  by (cases "accepted_id epg (fst entry)") (auto simp: match_step_accepted)

lemma match_fold_mapping:
  "fst (fold (match_step epg) chs st) name =
     (if name \<in> fst ` set chs
      then (case accepted_id epg name of None \<Rightarrow> fst st name | Some cid \<Rightarrow> Some cid)
      else fst st name)"
proof (induction chs arbitrary: st)
  case Nil
  then show ?case by simp
next
  case (Cons entry chs)
  have "fst (fold (match_step epg) (entry # chs) st) name =
      (if name \<in> fst ` set chs
       then (case accepted_id epg name of
               None \<Rightarrow> fst (match_step epg entry st) name
             | Some cid \<Rightarrow> Some cid)
       else fst (match_step epg entry st) name)"
    by (simp add: Cons.IH)
  then show ?case
    unfolding match_step_mapping by (auto split: option.splits)
qed

lemma match_fold_used:
  "snd (fold (match_step epg) chs st) =
     snd st \<union> {cid. \<exists>entry \<in> set chs. accepted_id epg (fst entry) = Some cid}"
proof (induction chs arbitrary: st)
  case Nil
  then show ?case by simp
next
  case (Cons entry chs)
  have "snd (fold (match_step epg) (entry # chs) st) =
      snd (match_step epg entry st) \<union>
        {cid. \<exists>entry \<in> set chs. accepted_id epg (fst entry) = Some cid}"
    by (simp add: Cons.IH)
  then show ?case
    unfolding match_step_used by auto
qed

lemma match_all_mapping:
  "name \<in> fst ` set chs \<Longrightarrow> fst (match_all chs epg) name = accepted_id epg name"
  by (simp add: match_all_def match_fold_mapping split: option.splits)

lemma match_all_used:
  "snd (match_all chs epg) = {cid. \<exists>entry \<in> set chs. accepted_id epg (fst entry) = Some cid}"
  by (simp add: match_all_def match_fold_used)

lemma accepted_id_Some:
  "accepted_id epg name = Some cid \<longleftrightarrow> cid \<noteq> [] \<and> fst (find_best_match name epg) = Some cid"
  by (auto simp: accepted_id_def split: option.splits)

text \<open>
  C2 (amended). The set of used identifiers that \<^verbatim>\<open>main\<close> hands to the guide projector
  is exactly the set of the non-empty identifiers that the matcher returns for the
  playlist entries. (An empty identifier that the matcher returns fails the truth test
  \<^verbatim>\<open>if cid:\<close> and is left out, both of the set and of the mapping.)
\<close>

theorem used_ids_are_nonempty_matches:
  "snd (match_all chs epg) =
     {cid. cid \<noteq> [] \<and> (\<exists>entry \<in> set chs. fst (find_best_match (fst entry) epg) = Some cid)}"
  by (auto simp: match_all_used accepted_id_Some)

theorem used_ids_are_nonempty_matches_witness:
  "snd (match_all [(''LRT HD'', ''http://a/1''), (''XYZ'', ''http://a/2'')]
         [(''lrt.lt'', [''LRT HD'']), (''abc'', [''ABC TV'', ''ABC''])]) = {''lrt.lt''}"
proof -
  let ?chs = "[(''LRT HD'', ''http://a/1''), (''XYZ'', ''http://a/2'')]"
  let ?epg = "[(''lrt.lt'', [''LRT HD'']), (''abc'', [''ABC TV'', ''ABC''])]"
  have m1: "fst (find_best_match ''LRT HD'' ?epg) = Some ''lrt.lt''"
    and m2: "fst (find_best_match ''XYZ'' ?epg) = None"
    by code_simp+
  show ?thesis
    unfolding used_ids_are_nonempty_matches [of ?chs ?epg]
    by (auto simp: m1 m2)
qed

text \<open>
  The claim as stated fails on a guide channel whose identifier is empty: the matcher
  returns the empty identifier with score 1, and the used set does not hold it.
\<close>

theorem used_ids_omit_empty_match:
  "parse_epg_channels ''<tv><channel id=\"\"><display-name>LRT</display-name></channel></tv>''
     = [('''', [''LRT''])]
   \<and> parse_m3u_channels (''#EXTINF:-1,LRT'' @ [LF] @ ''http://a/1'' @ [LF]) = [(''LRT'', ''http://a/1'')]
   \<and> find_best_match ''LRT'' [('''', [''LRT''])] = (Some '''', 1)
   \<and> '''' \<notin> snd (match_all [(''LRT'', ''http://a/1'')] [('''', [''LRT''])])"
  by code_simp

text \<open>
  C10. The metadata line of every entry of the projected playlist is
  \<open>extinf_line (accepted_id epg)\<close> at the entry's name: it depends on the name and on
  the guide mapping only, not on the entry's place or URL. So two entries with the same
  name carry the same \<^verbatim>\<open>tvg-id\<close>, or neither carries one.
\<close>

theorem same_name_same_tvg_id:
  "(\<forall>i < length chs.
      build_out_lines chs (fst (match_all chs epg)) ! (2 * i + 1)
        = extinf_line (accepted_id epg) (fst (chs ! i)))
   \<and> (\<forall>i j. i < length chs \<and> j < length chs \<and> fst (chs ! i) = fst (chs ! j) \<longrightarrow>
        build_out_lines chs (fst (match_all chs epg)) ! (2 * i + 1)
          = build_out_lines chs (fst (match_all chs epg)) ! (2 * j + 1))"
proof -
  have line: "build_out_lines chs (fst (match_all chs epg)) ! (2 * i + 1)
      = extinf_line (accepted_id epg) (fst (chs ! i))" if i: "i < length chs" for i
  proof -
    have "fst (chs ! i) \<in> fst ` set chs" using i by simp
    then have "extinf_line (fst (match_all chs epg)) (fst (chs ! i))
        = extinf_line (accepted_id epg) (fst (chs ! i))"
      by (simp add: extinf_line_def match_all_mapping)
    with nth_concat_pairs [OF i, of "\<lambda>e. extinf_line (fst (match_all chs epg)) (fst e)" snd]
    show ?thesis by (simp add: build_out_lines_eq)
  qed
  then show ?thesis by simp
qed

theorem same_name_same_tvg_id_witness:
  "build_out_lines [(''LRT'', ''http://a/1''), (''XYZ'', ''http://a/2''), (''LRT'', ''http://b/3'')]
       (fst (match_all [(''LRT'', ''http://a/1''), (''XYZ'', ''http://a/2''), (''LRT'', ''http://b/3'')]
              [(''lrt.lt'', [''LRT''])])) ! 1 = ''#EXTINF:-1 tvg-id=\"lrt.lt\",LRT''
   \<and> build_out_lines [(''LRT'', ''http://a/1''), (''XYZ'', ''http://a/2''), (''LRT'', ''http://b/3'')]
       (fst (match_all [(''LRT'', ''http://a/1''), (''XYZ'', ''http://a/2''), (''LRT'', ''http://b/3'')]
              [(''lrt.lt'', [''LRT''])])) ! 5 = ''#EXTINF:-1 tvg-id=\"lrt.lt\",LRT''"
proof -
  let ?chs = "[(''LRT'', ''http://a/1''), (''XYZ'', ''http://a/2''), (''LRT'', ''http://b/3'')]"
  let ?epg = "[(''lrt.lt'', [''LRT''])]"
  let ?out = "build_out_lines ?chs (fst (match_all ?chs ?epg))"
  note t = same_name_same_tvg_id [of ?chs ?epg]
  have acc: "extinf_line (accepted_id ?epg) ''LRT'' = ''#EXTINF:-1 tvg-id=\"lrt.lt\",LRT''"
    by code_simp
  from t have "\<forall>i<3. ?out ! (2 * i + 1) = extinf_line (accepted_id ?epg) (fst (?chs ! i))"
    by simp
  from this [rule_format, of 0] have l1: "?out ! 1 = ''#EXTINF:-1 tvg-id=\"lrt.lt\",LRT''"
    by (simp add: acc)
  from t have "\<forall>i j. i < 3 \<and> j < 3 \<and> fst (?chs ! i) = fst (?chs ! j) \<longrightarrow>
      ?out ! (2 * i + 1) = ?out ! (2 * j + 1)"
    by simp
  from this [rule_format, of 0 2] have "?out ! 1 = ?out ! 5"
    by simp
  with l1 show ?thesis by simp
qed

section \<open>Properties of the guide projector\<close>

lemma fold_channel_step:
  "fold (channel_step used) blocks acc =
     acc @ map channel_element (filter (\<lambda>block. fst block \<in> used) blocks)"
  by (induction blocks arbitrary: acc) (simp_all add: channel_step_def)

lemma fold_programme_step:
  "fold (programme_step used) blocks acc =
     acc @ map programme_element (filter (programme_kept used) blocks)"
  by (induction blocks arbitrary: acc)
     (simp_all add: programme_step_def programme_kept_def split: option.splits)

lemma filtered_out_eq:
  "filtered_out epg_xml used =
     [epg_header epg_xml] @ map channel_element (emitted_channels epg_xml used)
       @ map programme_element (emitted_programmes epg_xml used) @ [''</tv>'']"
  by (simp add: filtered_out_def Let_def fold_channel_step fold_programme_step
        emitted_channels_def emitted_programmes_def)

text \<open>The keys of the guide mapping are identifiers of channel blocks of the guide text.\<close>

lemma fold_epg_step_keys:
  "fst ` set (fold epg_step blocks acc) \<subseteq> fst ` set acc \<union> fst ` set blocks"
proof (induction blocks arbitrary: acc)
  case Nil
  then show ?case by simp
next
  case (Cons block blocks)
  have "fst ` set (epg_step block acc) \<subseteq> insert (fst block) (fst ` set acc)"
    by (auto simp: epg_step_def Let_def dom_update)
  with Cons.IH [of "epg_step block acc"] show ?case by auto
qed

lemma parse_epg_channels_keys:
  "fst ` set (parse_epg_channels epg_xml) \<subseteq> fst ` set (findall_channel epg_xml)"
  using fold_epg_step_keys [of "findall_channel epg_xml" "[]"]
  by (simp add: parse_epg_channels_def)

lemma used_ids_of_keys: "used_ids_of m3u_text epg_xml \<subseteq> fst ` set (findall_channel epg_xml)"
proof
  fix cid assume "cid \<in> used_ids_of m3u_text epg_xml"
  then obtain entry where
    "fst (find_best_match (fst entry) (parse_epg_channels epg_xml)) = Some cid"
    by (auto simp: used_ids_of_def match_all_used accepted_id_Some)
  then have "cid \<in> fst ` set (parse_epg_channels epg_xml)"
    by (rule find_best_match_key)
  with parse_epg_channels_keys show "cid \<in> fst ` set (findall_channel epg_xml)"
    by blast
qed


lemma build_filtered_epg_eq:
  "build_filtered_epg epg_xml used =
     join [LF] ([epg_header epg_xml] @ map channel_element (emitted_channels epg_xml used)
       @ map programme_element (emitted_programmes epg_xml used) @ [''</tv>''])"
  by (simp only: build_filtered_epg_def filtered_out_eq)




text \<open>
  C6 (amended). In the pipeline, the projected guide is the header of the original guide
  (its text up to the root tag, passed through as it is), the channel blocks of the
  original guide whose identifier is used, in their order, the emitted programme blocks
  and the footer, joined by line feeds. The identifiers of the emitted channel blocks are
  exactly the used identifiers, and they are a subset of the identifiers of the channel
  blocks of the original guide. The subset need not be strict: it is the whole set when
  every guide channel is matched.
\<close>

theorem projected_ids_subset:
  "build_filtered_epg epg_xml (used_ids_of m3u_text epg_xml) =
     join [LF] ([epg_header epg_xml]
       @ map channel_element
           (filter (\<lambda>block. fst block \<in> used_ids_of m3u_text epg_xml) (findall_channel epg_xml))
       @ map programme_element (emitted_programmes epg_xml (used_ids_of m3u_text epg_xml))
       @ [''</tv>''])
   \<and> fst ` set (filter (\<lambda>block. fst block \<in> used_ids_of m3u_text epg_xml) (findall_channel epg_xml))
       = used_ids_of m3u_text epg_xml
   \<and> used_ids_of m3u_text epg_xml \<subseteq> fst ` set (findall_channel epg_xml)"
proof (intro conjI)
  show "build_filtered_epg epg_xml (used_ids_of m3u_text epg_xml) =
     join [LF] ([epg_header epg_xml]
       @ map channel_element
           (filter (\<lambda>block. fst block \<in> used_ids_of m3u_text epg_xml) (findall_channel epg_xml))
       @ map programme_element (emitted_programmes epg_xml (used_ids_of m3u_text epg_xml))
       @ [''</tv>''])"
    using build_filtered_epg_eq [of epg_xml "used_ids_of m3u_text epg_xml"]
    by (simp only: emitted_channels_def)
next
  show "fst ` set (filter (\<lambda>block. fst block \<in> used_ids_of m3u_text epg_xml) (findall_channel epg_xml))
      = used_ids_of m3u_text epg_xml"
    using used_ids_of_keys [of m3u_text epg_xml] by auto
next
  show "used_ids_of m3u_text epg_xml \<subseteq> fst ` set (findall_channel epg_xml)"
    by (rule used_ids_of_keys)
qed

text \<open>
  With the playlist entry \<^verbatim>\<open>LRT HD\<close> and the single guide channel \<^verbatim>\<open>lrt.lt\<close> of that name,
  the projected guide holds every identifier of the original guide: no strict subset.
\<close>

theorem projected_ids_not_strict:
  "fst ` set (findall_channel lrt_epg) = {''lrt.lt''}
   \<and> used_ids_of lrt_m3u lrt_epg = {''lrt.lt''}
   \<and> build_filtered_epg lrt_epg (used_ids_of lrt_m3u lrt_epg) =
       ''<tv>'' @ [LF]
       @ ''<channel id=\"lrt.lt\"><display-name>LRT HD</display-name></channel>'' @ [LF]
       @ ''</tv>''
   \<and> fst ` set (emitted_channels lrt_epg (used_ids_of lrt_m3u lrt_epg)) = {''lrt.lt''}
   \<and> \<not> (fst ` set (emitted_channels lrt_epg (used_ids_of lrt_m3u lrt_epg))
          \<subset> fst ` set (findall_channel lrt_epg))"
  by code_simp

section \<open>Properties of the similarity score\<close>

lemma size_sum_append [simp]: "size_sum (xs @ ys) = size_sum xs + size_sum ys"
  by (simp add: size_sum_def)

lemma size_sum_insort: "size_sum (insort x xs) = snd (snd x) + size_sum xs"
  by (induction xs) (simp_all add: size_sum_def)

lemma size_sum_sort: "size_sum (sort xs) = size_sum xs"
proof (induction xs)
  case Nil
  then show ?case by simp
next
  case (Cons x xs)
  then show ?case by (simp add: size_sum_insort) (simp add: size_sum_def)
qed

lemma collapse_fold_sum:
  "snd (snd (fst (fold collapse_step blocks st))) + size_sum (snd (fold collapse_step blocks st))
     = snd (snd (fst st)) + size_sum (snd st) + size_sum blocks"
proof (induction blocks arbitrary: st)
  case Nil
  then show ?case by (simp add: size_sum_def)
next
  case (Cons blk blocks)
  obtain i2 j2 k2 where blk: "blk = (i2, j2, k2)" by (cases blk) auto
  obtain i1 j1 k1 na where st: "st = ((i1, j1, k1), na)" by (cases st) auto
  have "snd (snd (fst (collapse_step blk st))) + size_sum (snd (collapse_step blk st))
      = k1 + size_sum na + k2"
    by (simp add: blk st) (simp add: size_sum_def)
  with Cons.IH [of "collapse_step blk st"] show ?case
    by (simp add: blk st) (simp add: size_sum_def)
qed

lemma get_matching_blocks_sum:
  "size_sum (get_matching_blocks a b) = size_sum (blocks_loop a b [(0, length a, 0, length b)] [])"
proof -
  let ?mb = "sort (blocks_loop a b [(0, length a, 0, length b)] [])"
  let ?last = "fold collapse_step ?mb ((0, 0, 0), [])"
  have "size_sum (get_matching_blocks a b) = snd (snd (fst ?last)) + size_sum (snd ?last)"
    by (simp add: get_matching_blocks_def Let_def) (simp add: size_sum_def)
  also have "\<dots> = size_sum ?mb"
    using collapse_fold_sum [of ?mb "((0, 0, 0), [])"] by (simp add: size_sum_def)
  finally show ?thesis by (simp add: size_sum_sort)
qed

lemma ratio_eq:
  "ratio a b =
     calculate_ratio (size_sum (blocks_loop a b [(0, length a, 0, length b)] []))
       (length a + length b)"
  using get_matching_blocks_sum [of a b] by (simp add: ratio_def size_sum_def)

lemma blocks_loop_sum_le:
  "size_sum (blocks_loop a b queue acc) \<le> size_sum acc + span_a queue
   \<and> size_sum (blocks_loop a b queue acc) \<le> size_sum acc + span_b queue"
proof (induction a b queue acc rule: blocks_loop.induct)
  case (1 a b matching_blocks)
  then show ?case by (simp add: span_a_def span_b_def)
next
  case (2 a b alo ahi blo bhi queue matching_blocks)
  obtain i j k where flm: "find_longest_match a b alo ahi blo bhi = (i, j, k)"
    by (cases "find_longest_match a b alo ahi blo bhi") auto
  show ?case
  proof (cases "k = 0")
    case True
    with "2.IH"(2) [OF flm [symmetric] refl] flm show ?thesis
      by (auto simp: span_a_def span_b_def blocks_loop.simps(2))
  next
    case False
    let ?q = "(if i + k < ahi \<and> j + k < bhi then [(i + k, ahi, j + k, bhi)] else []) @
              (if alo < i \<and> blo < j then [(alo, i, blo, j)] else []) @ queue"
    have bounds: "alo \<le> i" "i + k \<le> ahi" "blo \<le> j" "j + k \<le> bhi"
      using find_longest_match_bounds [of alo ahi blo bhi a b] False
      unfolding flm block_ok_def by simp_all
    have ih: "size_sum (blocks_loop a b ?q (matching_blocks @ [(i, j, k)]))
          \<le> size_sum (matching_blocks @ [(i, j, k)]) + span_a ?q
        \<and> size_sum (blocks_loop a b ?q (matching_blocks @ [(i, j, k)]))
          \<le> size_sum (matching_blocks @ [(i, j, k)]) + span_b ?q"
      using "2.IH"(1) [OF flm [symmetric] refl] False by simp
    have sa: "k + span_a ?q \<le> span_a ((alo, ahi, blo, bhi) # queue)"
      using bounds by (auto simp: span_a_def)
    have sb: "k + span_b ?q \<le> span_b ((alo, ahi, blo, bhi) # queue)"
      using bounds by (auto simp: span_b_def)
    have eq: "blocks_loop a b ((alo, ahi, blo, bhi) # queue) matching_blocks
        = blocks_loop a b ?q (matching_blocks @ [(i, j, k)])"
      using flm False by (simp add: blocks_loop.simps(2))
    have k: "size_sum (matching_blocks @ [(i, j, k)]) = size_sum matching_blocks + k"
      by (simp add: size_sum_def)
    show ?thesis
      unfolding eq using ih sa sb unfolding k by linarith
  qed
qed

lemma ratio_le_1: "ratio a b \<le> 1"
proof -
  define m where "m = size_sum (blocks_loop a b [(0, length a, 0, length b)] [])"
  define t where "t = length a + length b"
  from blocks_loop_sum_le [of a b "[(0, length a, 0, length b)]" "[]"]
  have "m \<le> length a" and "m \<le> length b"
    unfolding m_def by (simp_all add: span_a_def span_b_def size_sum_def)
  then have "2 * m \<le> t" by (simp add: t_def)
  then have le: "(2 * of_nat m :: rat) \<le> of_nat t"
    by (metis of_nat_le_iff of_nat_mult of_nat_numeral)
  have "ratio a b = calculate_ratio m t"
    unfolding m_def t_def by (rule ratio_eq)
  also have "\<dots> \<le> 1"
  proof (cases "t = 0")
    case True
    then show ?thesis by (simp add: calculate_ratio_def)
  next
    case False
    then have "(0 :: rat) < of_nat t" by simp
    with le show ?thesis
      using False by (simp add: calculate_ratio_def divide_le_eq_1)
  qed
  finally show ?thesis .
qed

lemma run_len_pos: "\<not> is_popular s (s ! j) \<Longrightarrow> 0 < run_len s j"
  by (cases j) simp_all

lemma run_len_popular: "is_popular s (s ! j) \<Longrightarrow> run_len s j = 0"
  by (cases j) simp_all

lemma row_ready_empty: "row_ready s 0 Map.empty"
  using run_len_pos [of s] by (auto simp: row_ready_def chain_len_def Suc_le_eq)

lemma row_ready_next:
  assumes "row_done s i newj2len"
  shows "row_ready s (Suc i) newj2len"
proof -
  have le_j: "chain_len newj2len j \<le> run_len s j" if np: "\<not> is_popular s (s ! j)" for j
  proof (cases j)
    case 0
    with np show ?thesis by (simp add: chain_len_def)
  next
    case (Suc p)
    with np assms show ?thesis
      by (auto simp: chain_len_def row_done_def split: option.splits)
  qed
  have le_i: "chain_len newj2len j \<le> run_len s (Suc i)" if np: "\<not> is_popular s (s ! Suc i)" for j
    using np assms by (auto simp: chain_len_def row_done_def split: option.splits)
  have eq_i: "chain_len newj2len (Suc i) = run_len s (Suc i)" if np: "\<not> is_popular s (s ! Suc i)"
    using np assms run_len_popular [of s i]
    by (auto simp: chain_len_def row_done_def split: option.splits if_splits)
  show ?thesis
    unfolding row_ready_def using le_j le_i eq_i by blast
qed

lemma flm_inner_visit:
  "blo \<le> j \<Longrightarrow> j < bhi \<Longrightarrow>
   flm_inner i blo bhi j2len (j # js) (newj2len, besti, bestj, bestsize) =
     flm_inner i blo bhi j2len js
       (newj2len(j \<mapsto> chain_len j2len j),
        if bestsize < chain_len j2len j
        then (i + 1 - chain_len j2len j, j + 1 - chain_len j2len j, chain_len j2len j)
        else (besti, bestj, bestsize))"
  by (simp add: chain_len_def Let_def)

lemma inner_post_mono: "inner_post s i k r \<Longrightarrow> bs \<le> k \<Longrightarrow> inner_post s i bs r"
  by (auto simp: inner_post_def)

lemma flm_inner_diagonal:
  assumes ready: "row_ready s i j2len" and np: "\<not> is_popular s (s ! i)"
  shows "sorted js \<Longrightarrow> \<forall>j \<in> set js. j < n \<and> s ! j = s ! i \<Longrightarrow>
     \<forall>t < i. run_len s t \<le> bs \<Longrightarrow>
     \<forall>j v. new j = Some v \<longrightarrow> v \<le> run_len s j \<and> v \<le> run_len s i \<Longrightarrow>
     i \<in> set js \<or> (new i = Some (run_len s i) \<and> run_len s i \<le> bs) \<Longrightarrow>
     inner_post s i bs (flm_inner i 0 n j2len js (new, d, d, bs))"
proof (induction js arbitrary: new d bs)
  case Nil
  then show ?case by (simp add: inner_post_def)
next
  case (Cons j js)
  define k where "k = chain_len j2len j"
  have jn: "j < n" and sj: "s ! j = s ! i" using Cons.prems(2) by simp_all
  have npj: "\<not> is_popular s (s ! j)" using np sj by simp
  have kj: "k \<le> run_len s j" using ready npj by (simp add: row_ready_def k_def)
  have ki: "k \<le> run_len s i" using ready np by (simp add: row_ready_def k_def)
  have kii: "j = i \<Longrightarrow> k = run_len s i" using ready np by (simp add: row_ready_def k_def)
  have step: "flm_inner i 0 n j2len (j # js) (new, d, d, bs) =
      flm_inner i 0 n j2len js
        (new(j \<mapsto> k), if bs < k then (i + 1 - k, j + 1 - k, k) else (d, d, bs))"
    unfolding k_def by (rule flm_inner_visit) (use jn in simp_all)
  have sorted': "sorted js" and elems': "\<forall>j \<in> set js. j < n \<and> s ! j = s ! i"
    using Cons.prems(1,2) by simp_all
  have new': "\<forall>x v. (new(j \<mapsto> k)) x = Some v \<longrightarrow> v \<le> run_len s x \<and> v \<le> run_len s i"
    using Cons.prems(4) kj ki by auto
  show ?case
  proof (cases "bs < k")
    case True
    have ji: "j = i"
    proof (rule ccontr)
      assume ne: "j \<noteq> i"
      show False
      proof (cases "j < i")
        case True
        with Cons.prems(3) have "run_len s j \<le> bs" by simp
        with kj \<open>bs < k\<close> show False by simp
      next
        case False
        with ne have gt: "i < j" by simp
        have "i \<notin> set (j # js)" using Cons.prems(1) gt by auto
        with Cons.prems(5) have "run_len s i \<le> bs" by blast
        with ki \<open>bs < k\<close> show False by simp
      qed
    qed
    have step': "flm_inner i 0 n j2len (j # js) (new, d, d, bs) =
        flm_inner i 0 n j2len js (new(j \<mapsto> k), i + 1 - k, i + 1 - k, k)"
      unfolding step using True ji by simp
    have d2: "\<forall>t < i. run_len s t \<le> k" using Cons.prems(3) True by auto
    have q: "i \<in> set js \<or> ((new(j \<mapsto> k)) i = Some (run_len s i) \<and> run_len s i \<le> k)"
      using ji kii by simp
    have "inner_post s i k (flm_inner i 0 n j2len js (new(j \<mapsto> k), i + 1 - k, i + 1 - k, k))"
      by (rule Cons.IH [OF sorted' elems' d2 new' q])
    then show ?thesis
      unfolding step' by (rule inner_post_mono) (use True in simp)
  next
    case False
    have step': "flm_inner i 0 n j2len (j # js) (new, d, d, bs) =
        flm_inner i 0 n j2len js (new(j \<mapsto> k), d, d, bs)"
      unfolding step using False by simp
    have q: "i \<in> set js \<or> ((new(j \<mapsto> k)) i = Some (run_len s i) \<and> run_len s i \<le> bs)"
    proof (cases "j = i")
      case True
      with kii False show ?thesis by simp
    next
      case ne: False
      with Cons.prems(5) show ?thesis by auto
    qed
    show ?thesis
      unfolding step' by (rule Cons.IH [OF sorted' elems' Cons.prems(3) new' q])
  qed
qed

lemma b2j_all_sorted: "sorted (b2j_all b elt)"
proof -
  have "sorted (map fst (enumerate 0 b))" by (simp add: map_fst_enumerate)
  then show ?thesis unfolding b2j_all_def by (rule sorted_filter)
qed

lemma b2j_all_set: "set (b2j_all b elt) = {j. j < length b \<and> b ! j = elt}"
  by (auto simp: b2j_all_def in_set_enumerate_eq image_iff)

lemma flm_row_diagonal:
  assumes "diag_state s i st" and "i < length s"
  shows "diag_state s (Suc i) (flm_row s s 0 (length s) i st)"
proof -
  obtain j2len d bj bs where st: "st = (j2len, d, bj, bs)" by (cases st) auto
  with assms(1) have bj: "bj = d" and d2: "\<forall>t < i. run_len s t \<le> bs"
    and ready: "row_ready s i j2len"
    by (simp_all add: diag_state_def)
  show ?thesis
  proof (cases "is_popular s (s ! i)")
    case True
    then have "flm_row s s 0 (length s) i st = (Map.empty, d, d, bs)"
      by (simp add: flm_row_def b2j_def st bj)
    moreover have "row_done s i Map.empty" using True by (simp add: row_done_def)
    moreover have "run_len s i = 0" using True by (cases i) simp_all
    ultimately show ?thesis
      using d2 row_ready_next by (auto simp: diag_state_def less_Suc_eq)
  next
    case False
    let ?js = "b2j_all s (s ! i)"
    let ?r = "flm_inner i 0 (length s) j2len ?js (Map.empty, d, d, bs)"
    have row: "flm_row s s 0 (length s) i st = ?r"
      using False by (simp add: flm_row_def b2j_def st bj)
    have elems: "\<forall>j \<in> set ?js. j < length s \<and> s ! j = s ! i"
      by (simp add: b2j_all_set)
    have mem: "i \<in> set ?js \<or> (Map.empty i = Some (run_len s i) \<and> run_len s i \<le> bs)"
      using assms(2) by (simp add: b2j_all_set)
    have emp: "\<forall>j v. Map.empty j = Some v \<longrightarrow> v \<le> run_len s j \<and> v \<le> run_len s i"
      by simp
    obtain new' bi' bj' bs' where r: "?r = (new', bi', bj', bs')" by (cases ?r) auto
    from flm_inner_diagonal [OF ready False b2j_all_sorted elems d2 emp mem, of d]
    have "bi' = bj'" and "bs \<le> bs'" and "run_len s i \<le> bs'"
      and "\<forall>j v. new' j = Some v \<longrightarrow> v \<le> run_len s j \<and> v \<le> run_len s i"
      and "new' i = Some (run_len s i)"
      unfolding r inner_post_def by simp_all
    moreover from this False have "row_done s i new'" by (simp add: row_done_def)
    ultimately show ?thesis
      unfolding row r using d2 row_ready_next [of s i new']
      by (auto simp: diag_state_def less_Suc_eq)
  qed
qed

lemma flm_fold_diagonal:
  "m \<le> length s \<Longrightarrow>
   diag_state s m (fold (flm_row s s 0 (length s)) [0..<m] (Map.empty, 0, 0, 0))"
proof (induction m)
  case 0
  then show ?case by (simp add: diag_state_def row_ready_empty)
next
  case (Suc m)
  then have "diag_state s m (fold (flm_row s s 0 (length s)) [0..<m] (Map.empty, 0, 0, 0))"
    and "m < length s" by simp_all
  from flm_row_diagonal [OF this] show ?case by simp
qed

lemma extend_left_diagonal: "extend_left s s 0 0 (d, d, k) = (0, 0, k + d)"
proof (induction d arbitrary: k)
  case 0
  then show ?case by (subst extend_left.simps) simp
next
  case (Suc d)
  show ?case by (subst extend_left.simps) (simp add: Suc.IH)
qed

lemma extend_right_diagonal:
  "k \<le> n \<Longrightarrow> extend_right s s n n (0, 0, k) = (0, 0, n)"
proof (induction "n - k" arbitrary: k)
  case 0
  then show ?case by (subst extend_right.simps) simp
next
  case (Suc x)
  then have "Suc k \<le> n" and "x = n - Suc k" by simp_all
  from Suc.hyps(1) [OF this(2) this(1)] Suc.prems Suc.hyps(2) show ?case
    by (subst extend_right.simps) simp
qed

lemma find_longest_match_same:
  "find_longest_match s s 0 (length s) 0 (length s) = (0, 0, length s)"
proof -
  let ?st = "fold (flm_row s s 0 (length s)) [0..<length s] (Map.empty, 0, 0, 0)"
  obtain j2len bi bj bs where st: "?st = (j2len, bi, bj, bs)" by (cases ?st) auto
  from flm_fold_diagonal [of "length s" s] have diag: "bi = bj"
    by (simp add: diag_state_def st)
  from flm_fold_best_ok [of 0 0 "length s" "length s" s s]
  have "bj + bs \<le> length s"
    by (auto simp: st best_ok_def diag split: if_splits)
  then show ?thesis
    unfolding find_longest_match_def st
    by (simp add: diag extend_left_diagonal extend_right_diagonal add.commute)
qed

lemma blocks_loop_same:
  "size_sum (blocks_loop s s [(0, length s, 0, length s)] []) = length s"
  by (simp add: blocks_loop.simps(2) find_longest_match_same size_sum_def)

lemma ratio_same: "ratio s s = 1"
  by (simp add: ratio_eq blocks_loop_same calculate_ratio_def)

section \<open>Exact aliases\<close>

lemma similarity_same: "similarity name name = 1"
  by (simp add: similarity_def ratio_same)

lemma similarity_le_1: "similarity a b \<le> 1"
  by (simp add: similarity_def ratio_le_1)

lemma names_step_full: "snd st = 1 \<Longrightarrow> fold (names_step name cid) ns st = st"
proof (induction ns)
  case Nil
  then show ?case by simp
next
  case (Cons n ns)
  have "\<not> 1 < similarity name n" using similarity_le_1 [of name n] by simp
  with Cons show ?case by (simp add: names_step_def)
qed

lemma names_step_hit:
  "snd st < 1 \<Longrightarrow> \<exists>n \<in> set ns. similarity name n = 1 \<Longrightarrow>
   fold (names_step name cid) ns st = (Some cid, 1)"
proof (induction ns arbitrary: st)
  case Nil
  then show ?case by simp
next
  case (Cons n ns)
  show ?case
  proof (cases "similarity name n = 1")
    case True
    with Cons.prems(1) have "names_step name cid n st = (Some cid, 1)"
      by (simp add: names_step_def)
    then show ?thesis by (simp add: names_step_full)
  next
    case False
    with similarity_le_1 [of name n] have lt: "similarity name n < 1" by simp
    with Cons.prems(1) have "snd (names_step name cid n st) < 1"
      by (simp add: names_step_def Let_def)
    moreover from Cons.prems(2) False have "\<exists>n \<in> set ns. similarity name n = 1" by simp
    ultimately show ?thesis using Cons.IH by simp
  qed
qed

lemma names_step_miss:
  "snd st < 1 \<Longrightarrow> \<forall>n \<in> set ns. similarity name n \<noteq> 1 \<Longrightarrow>
   snd (fold (names_step name cid) ns st) < 1"
proof (induction ns arbitrary: st)
  case Nil
  then show ?case by simp
next
  case (Cons n ns)
  from Cons.prems(2) similarity_le_1 [of name n] have "similarity name n < 1" by simp
  with Cons.prems(1) have "snd (names_step name cid n st) < 1"
    by (simp add: names_step_def Let_def)
  with Cons.IH Cons.prems(2) show ?case by simp
qed

lemma items_step_full: "snd st = 1 \<Longrightarrow> fold (items_step name) items st = st"
  by (induction items) (simp_all add: items_step_def names_step_full)

lemma items_step_miss:
  "snd st < 1 \<Longrightarrow> \<forall>item \<in> set items. \<forall>n \<in> set (snd item). similarity name n \<noteq> 1 \<Longrightarrow>
   snd (fold (items_step name) items st) < 1"
proof (induction items arbitrary: st)
  case Nil
  then show ?case by simp
next
  case (Cons item items)
  from Cons.prems have "snd (items_step name item st) < 1"
    unfolding items_step_def by (intro names_step_miss) simp_all
  with Cons.IH Cons.prems(2) show ?case by simp
qed

lemma best_scan_first_exact:
  assumes "\<exists>n \<in> set names. similarity name n = 1"
    and "\<forall>item \<in> set pre. \<forall>n \<in> set (snd item). similarity name n \<noteq> 1"
  shows "best_scan name (pre @ (cid, names) # post) = (Some cid, 1)"
proof -
  let ?st = "fold (items_step name) pre (None, 0)"
  have "snd ?st < 1" using assms(2) by (intro items_step_miss) simp_all
  then have "items_step name (cid, names) ?st = (Some cid, 1)"
    unfolding items_step_def using assms(1) by (simp add: names_step_hit)
  then show ?thesis
    by (simp add: best_scan_def items_step_full)
qed

lemma similarity_lower: "lower a = lower b \<Longrightarrow> similarity a b = 1"
  by (simp add: similarity_def ratio_same)

lemma find_best_match_first_exact:
  assumes "\<exists>n \<in> set names. similarity name n = 1"
    and "\<forall>item \<in> set pre. \<forall>n \<in> set (snd item). similarity name n \<noteq> 1"
  shows "find_best_match name (pre @ (cid, names) # post) = (Some cid, 1)"
  using best_scan_first_exact [OF assms, of cid post]
  by (simp add: find_best_match_def MIN_SIMILARITY_def)

text \<open>
  C5 (amended). The similarity of a name to an alias equal to it is 1.0, and so is its
  similarity to an alias that differs from it in letter case only. The name matcher
  returns, with score 1.0, the first channel in the order of the guide mapping that has
  an alias with similarity 1.0 to the name. So when the name is an alias of a guide
  channel, word for word, the matcher returns score 1.0 and the first channel that has
  such an alias: the channel that holds the name, unless a channel before it has one. In
  the scenario, \<^verbatim>\<open>LRT HD\<close> is matched to \<^verbatim>\<open>lrt.lt\<close> with score 1.0 and its metadata line
  holds \<^verbatim>\<open>tvg-id="lrt.lt"\<close>.
\<close>

theorem exact_alias_selected:
  "similarity name name = 1
   \<and> (lower name = lower alias \<longrightarrow> similarity name alias = 1)
   \<and> ((\<exists>n \<in> set names. similarity name n = 1)
        \<and> (\<forall>item \<in> set pre. \<forall>n \<in> set (snd item). similarity name n \<noteq> 1) \<longrightarrow>
      find_best_match name (pre @ (cid, names) # post) = (Some cid, 1))
   \<and> ((c, ns) \<in> set epg_channels \<and> name \<in> set ns \<longrightarrow>
      (\<exists>pre first names post.
         epg_channels = pre @ (first, names) # post
         \<and> (\<exists>n \<in> set names. similarity name n = 1)
         \<and> (\<forall>item \<in> set pre. \<forall>n \<in> set (snd item). similarity name n \<noteq> 1)
         \<and> (name \<notin> \<Union> (set ` snd ` set pre))
         \<and> find_best_match name epg_channels = (Some first, 1)))"
proof (intro conjI impI)
  show "similarity name name = 1" by (rule similarity_same)
next
  assume "lower name = lower alias"
  then show "similarity name alias = 1" by (rule similarity_lower)
next
  assume "(\<exists>n \<in> set names. similarity name n = 1)
      \<and> (\<forall>item \<in> set pre. \<forall>n \<in> set (snd item). similarity name n \<noteq> 1)"
  then show "find_best_match name (pre @ (cid, names) # post) = (Some cid, 1)"
    by (intro find_best_match_first_exact) simp_all
next
  assume h: "(c, ns) \<in> set epg_channels \<and> name \<in> set ns"
  let ?P = "\<lambda>item. \<exists>n \<in> set (snd item). similarity name n = 1"
  from h have "?P (c, ns)" using similarity_same [of name] by auto
  with h have "\<exists>item \<in> set epg_channels. ?P item" by blast
  then obtain pre item post where split: "epg_channels = pre @ item # post"
    and hit: "?P item" and miss: "\<forall>y \<in> set pre. \<not> ?P y"
    by (rule split_list_first_propE)
  obtain first names where item: "item = (first, names)" by (cases item)
  from hit item have e: "\<exists>n \<in> set names. similarity name n = 1" by simp
  from miss have m: "\<forall>item \<in> set pre. \<forall>n \<in> set (snd item). similarity name n \<noteq> 1"
    by blast
  from m have nm: "name \<notin> \<Union> (set ` snd ` set pre)"
    using similarity_same [of name] by auto
  from e m have "find_best_match name (pre @ (first, names) # post) = (Some first, 1)"
    by (rule find_best_match_first_exact)
  with split item e m nm show "\<exists>pre first names post.
         epg_channels = pre @ (first, names) # post
         \<and> (\<exists>n \<in> set names. similarity name n = 1)
         \<and> (\<forall>item \<in> set pre. \<forall>n \<in> set (snd item). similarity name n \<noteq> 1)
         \<and> (name \<notin> \<Union> (set ` snd ` set pre))
         \<and> find_best_match name epg_channels = (Some first, 1)"
    by blast
qed

theorem exact_alias_selected_witness:
  "parse_epg_channels lrt_epg = [(''lrt.lt'', [''LRT HD''])]
   \<and> similarity ''LRT HD'' ''LRT HD'' = 1
   \<and> similarity ''LRT HD'' ''lrt hd'' = 1
   \<and> find_best_match ''LRT HD'' (parse_epg_channels lrt_epg) = (Some ''lrt.lt'', 1)
   \<and> find_best_match ''LRT HD'' [(''abc'', [''ABC TV'', ''ABC'']), (''lrt.lt'', [''LRT'', ''LRT HD''])]
       = (Some ''lrt.lt'', 1)
   \<and> find_best_match ''LRT HD''
         [(''abc'', [''ABC TV'']), (''low'', [''lrt hd'']), (''lrt.lt'', [''LRT HD''])]
       = (Some ''low'', 1)
   \<and> (\<exists>first. find_best_match ''LRT HD''
         [(''abc'', [''ABC TV'']), (''lrt.lt'', [''LRT HD'']), (''low'', [''lrt hd''])]
       = (Some first, 1))
   \<and> fst (pipeline lrt_m3u lrt_epg) =
       m3u_header @ [LF] @ ''#EXTINF:-1 tvg-id=\"lrt.lt\",LRT HD'' @ [LF] @ ''http://a/lrt'' @ [LF]"
proof -
  have p: "parse_epg_channels lrt_epg = [(''lrt.lt'', [''LRT HD''])]"
    by code_simp
  have out: "fst (pipeline lrt_m3u lrt_epg) =
      m3u_header @ [LF] @ ''#EXTINF:-1 tvg-id=\"lrt.lt\",LRT HD'' @ [LF] @ ''http://a/lrt'' @ [LF]"
    by code_simp
  have low: "lower ''LRT HD'' = lower ''lrt hd''"
    by code_simp
  have far: "similarity ''LRT HD'' ''ABC TV'' \<noteq> 1" "similarity ''LRT HD'' ''ABC'' \<noteq> 1"
    by code_simp+
  from exact_alias_selected [of "''LRT HD''" "''lrt hd''" "[''LRT HD'']" "[]" "''lrt.lt''" "[]"] low
  have same: "similarity ''LRT HD'' ''LRT HD'' = 1"
    and variant: "similarity ''LRT HD'' ''lrt hd'' = 1"
    and one: "find_best_match ''LRT HD'' [(''lrt.lt'', [''LRT HD''])] = (Some ''lrt.lt'', 1)"
    by simp_all
  from exact_alias_selected [of "''LRT HD''" "''lrt hd''" "[''LRT'', ''LRT HD'']"
      "[(''abc'', [''ABC TV'', ''ABC''])]" "''lrt.lt''" "[]"] same far
  have two: "find_best_match ''LRT HD''
      [(''abc'', [''ABC TV'', ''ABC'']), (''lrt.lt'', [''LRT'', ''LRT HD''])] = (Some ''lrt.lt'', 1)"
    by simp
  from exact_alias_selected [of "''LRT HD''" "''lrt hd''" "[''lrt hd'']"
      "[(''abc'', [''ABC TV''])]" "''low''" "[(''lrt.lt'', [''LRT HD''])]"] variant far
  have three: "find_best_match ''LRT HD''
      [(''abc'', [''ABC TV'']), (''low'', [''lrt hd'']), (''lrt.lt'', [''LRT HD''])] = (Some ''low'', 1)"
    by simp
  from exact_alias_selected [of "''LRT HD''" "''lrt hd''" "[]" "[]" "''x''" "[]" "''lrt.lt''"
      "[''LRT HD'']" "[(''abc'', [''ABC TV'']), (''lrt.lt'', [''LRT HD'']), (''low'', [''lrt hd''])]"]
  have four: "\<exists>first. find_best_match ''LRT HD''
      [(''abc'', [''ABC TV'']), (''lrt.lt'', [''LRT HD'']), (''low'', [''lrt hd''])] = (Some first, 1)"
    by auto
  from p out same variant one two three four show ?thesis by simp
qed

text \<open>
  The claim as stated fails when an earlier channel has an alias that differs from the
  name in letter case only: the name \<^verbatim>\<open>LRT HD\<close> is an alias of channel \<^verbatim>\<open>b\<close>, word for
  word, and the matcher returns channel \<^verbatim>\<open>a\<close>.
\<close>

theorem exact_alias_not_selected:
  "parse_epg_channels
     (''<tv><channel id=\"a\"><display-name>lrt hd</display-name></channel>''
      @ ''<channel id=\"b\"><display-name>LRT HD</display-name></channel></tv>'')
     = [(''a'', [''lrt hd'']), (''b'', [''LRT HD''])]
   \<and> find_best_match ''LRT HD'' [(''a'', [''lrt hd'']), (''b'', [''LRT HD''])] = (Some ''a'', 1)"
  by code_simp

section \<open>Decoding the guide\<close>

lemma decode_ignore_total: "\<exists>decoded. decode_utf8 Ignore content = Inr decoded"
proof (induction content rule: length_induct)
  case (1 content)
  show ?case
  proof (cases content)
    case Nil
    then show ?thesis by simp
  next
    case (Cons ch rest)
    show ?thesis
    proof (cases "utf8_next ch rest")
      case (Good cp extra)
      have "length (drop extra rest) < length content" using Cons by simp
      with 1 obtain decoded where "decode_utf8 Ignore (drop extra rest) = Inr decoded" by blast
      with Cons Good show ?thesis by simp
    next
      case (Bad extra)
      have "length (drop extra rest) < length content" using Cons by simp
      with 1 obtain decoded where "decode_utf8 Ignore (drop extra rest) = Inr decoded" by blast
      with Cons Bad show ?thesis by simp
    qed
  qed
qed

lemma decode_strict_ignore:
  "decode_utf8 Strict content = Inr decoded \<Longrightarrow> decode_utf8 Ignore content = Inr decoded"
proof (induction content arbitrary: decoded rule: length_induct)
  case (1 content)
  show ?case
  proof (cases content)
    case Nil
    with 1(2) show ?thesis by simp
  next
    case (Cons ch rest)
    show ?thesis
    proof (cases "utf8_next ch rest")
      case (Good cp extra)
      with Cons 1(2) obtain others where rest_eq: "decode_utf8 Strict (drop extra rest) = Inr others"
        and eq: "decoded = cp # others"
        by (auto split: sum.splits)
      have "length (drop extra rest) < length content" using Cons by simp
      with 1(1) rest_eq have "decode_utf8 Ignore (drop extra rest) = Inr others" by blast
      with Cons Good eq show ?thesis by simp
    next
      case (Bad extra)
      with Cons 1(2) show ?thesis by simp
    qed
  qed
qed

lemma decode_ignore_length:
  "decode_utf8 Ignore content = Inr decoded \<Longrightarrow> length decoded \<le> length content"
proof (induction content arbitrary: decoded rule: length_induct)
  case (1 content)
  show ?case
  proof (cases content)
    case Nil
    with 1(2) show ?thesis by simp
  next
    case (Cons ch rest)
    have shorter: "\<And>extra. length (drop extra rest) < length content" using Cons by simp
    show ?thesis
    proof (cases "utf8_next ch rest")
      case (Good cp extra)
      with Cons 1(2) obtain others where rest_eq: "decode_utf8 Ignore (drop extra rest) = Inr others"
        and eq: "decoded = cp # others"
        by (auto split: sum.splits)
      from 1(1) shorter rest_eq have "length others \<le> length (drop extra rest)" by blast
      with Cons eq show ?thesis by simp
    next
      case (Bad extra)
      with Cons 1(2) have "decode_utf8 Ignore (drop extra rest) = Inr decoded" by simp
      with 1(1) shorter have "length decoded \<le> length (drop extra rest)" by blast
      with Cons show ?thesis by simp
    qed
  qed
qed

text \<open>
  C7 (amended). Decoding the decompressed bytes of the guide never raises: it returns a
  text for every byte sequence. Invalid byte sequences are tolerated by omission, not by
  substitution: where the decoder meets an invalid range of bytes, the text is that of
  the bytes after the range, so the range adds no character, and a valid sequence adds
  its one character; bytes that decode without error decode to the same text.
\<close>

theorem decode_guide_never_raises:
  "(\<exists>decoded. decode_guide content = Inr decoded \<and> length decoded \<le> length content)
   \<and> (decode_utf8 Strict content = Inr strict_decoded \<longrightarrow> decode_guide content = Inr strict_decoded)
   \<and> (utf8_next ch rest = Bad extra \<longrightarrow>
        decode_guide (ch # rest) = decode_guide (drop extra rest))
   \<and> (utf8_next lead others = Good cp width \<longrightarrow>
        (\<exists>decoded. decode_guide (drop width others) = Inr decoded
           \<and> decode_guide (lead # others) = Inr (cp # decoded)))"
proof (intro conjI impI)
  obtain decoded where d: "decode_utf8 Ignore content = Inr decoded"
    using decode_ignore_total by blast
  then have "length decoded \<le> length content" by (rule decode_ignore_length)
  with d show "\<exists>decoded. decode_guide content = Inr decoded \<and> length decoded \<le> length content"
    unfolding decode_guide_def by blast
next
  assume "decode_utf8 Strict content = Inr strict_decoded"
  then show "decode_guide content = Inr strict_decoded"
    unfolding decode_guide_def by (rule decode_strict_ignore)
next
  assume "utf8_next ch rest = Bad extra"
  then show "decode_guide (ch # rest) = decode_guide (drop extra rest)"
    by (simp add: decode_guide_def)
next
  assume good: "utf8_next lead others = Good cp width"
  obtain decoded where "decode_utf8 Ignore (drop width others) = Inr decoded"
    using decode_ignore_total by blast
  with good show "\<exists>decoded. decode_guide (drop width others) = Inr decoded
      \<and> decode_guide (lead # others) = Inr (cp # decoded)"
    by (simp add: decode_guide_def)
qed

theorem decode_guide_never_raises_witness:
  "decode_utf8 Strict [0x41, 0xC4, 0x97, 0x42] = Inr [0x41, 0x117, 0x42]
   \<and> decode_guide [0x41, 0xC4, 0x97, 0x42] = Inr [0x41, 0x117, 0x42]
   \<and> utf8_next 0xE2 [0x82, 0x41] = Bad 1
   \<and> decode_guide [0xE2, 0x82, 0x41] = decode_guide [0x41]
   \<and> utf8_next 0xC4 [0x97, 0x42] = Good 0x117 1
   \<and> (\<exists>decoded. decode_guide [0x42] = Inr decoded
          \<and> decode_guide [0xC4, 0x97, 0x42] = Inr (0x117 # decoded))"
proof -
  have strict: "decode_utf8 Strict [0x41, 0xC4, 0x97, 0x42] = Inr [0x41, 0x117, 0x42]"
    by (simp add: utf8_next_def cont_def)
  have bad: "utf8_next 0xE2 [0x82, 0x41] = Bad 1"
    by (simp add: utf8_next_def cont_def)
  have good: "utf8_next 0xC4 [0x97, 0x42] = Good 0x117 1"
    by (simp add: utf8_next_def cont_def)
  from decode_guide_never_raises
    [of "[0x41, 0xC4, 0x97, 0x42]" "[0x41, 0x117, 0x42]" "0xE2" "[0x82, 0x41]" 1
        "0xC4" "[0x97, 0x42]" "0x117" 1] strict bad good
  have a: "decode_guide [0x41, 0xC4, 0x97, 0x42] = Inr [0x41, 0x117, 0x42]"
    and b: "decode_guide [0xE2, 0x82, 0x41] = decode_guide [0x41]"
    and c: "\<exists>decoded. decode_guide [0x42] = Inr decoded
          \<and> decode_guide [0xC4, 0x97, 0x42] = Inr (0x117 # decoded)"
    by simp_all
  from strict bad good a b c show ?thesis by simp
qed

text \<open>
  The claim as stated fails: the byte \<^verbatim>\<open>0xFF\<close> between \<^verbatim>\<open>A\<close> and \<^verbatim>\<open>B\<close> is dropped, and the text
  holds no substitution character; the handler \<^verbatim>\<open>replace\<close>, which the source does not use,
  would put U+FFFD there.
\<close>

theorem decode_guide_drops_invalid:
  "decode_guide [0x41, 0xFF, 0x42] = Inr [0x41, 0x42]
   \<and> decode_utf8 Replace [0x41, 0xFF, 0x42] = Inr [0x41, 0xFFFD, 0x42]
   \<and> decode_guide [0x41, 0xFF, 0x42] \<noteq> decode_utf8 Replace [0x41, 0xFF, 0x42]
   \<and> decode_guide [0xE2, 0x82, 0x41, 0xED, 0xA0, 0x80] = Inr [0x41]"
  by (simp add: decode_guide_def utf8_next_def cont_def)

section \<open>The written files of two runs\<close>








end
